theory Spec2Isabelle
  imports Complex_Main "HOL-Library.Sublist"
begin

section \<open>Python values used by the model\<close>

text \<open>
  Text is a \<open>string\<close> holding the UTF-8 bytes of the Python \<open>str\<close> (the form in which
  SQLite stores and compares it); Python's unbounded integers are \<open>int\<close>.  Every
  exception the modelled code can raise is a value of \<open>py_error\<close>.
\<close>

datatype py_error = IndexError | ValueError | TypeError | OverflowError | IntegrityError | OSError

text \<open>List subscript \<open>xs[i]\<close>: a negative index counts from the end, an index out of
  range raises.\<close>

definition py_index :: "'a list \<Rightarrow> int \<Rightarrow> py_error + 'a" where
  "py_index xs i =
     (if 0 \<le> i \<and> i < int (length xs) then Inr (xs ! nat i)
      else if - int (length xs) \<le> i \<and> i < 0 then Inr (xs ! nat (int (length xs) + i))
      else Inl IndexError)"

text \<open>\<open>str(n)\<close> for a non-negative integer, and for any integer.\<close>

definition digit_char :: "nat \<Rightarrow> char" where
  "digit_char d = char_of (48 + d)"

fun str_nat :: "nat \<Rightarrow> string" where
  "str_nat n = (if n < 10 then [digit_char n] else str_nat (n div 10) @ [digit_char (n mod 10)])"

declare str_nat.simps [simp del]

definition str_int :: "int \<Rightarrow> string" where
  "str_int i = (if i < 0 then CHR ''-'' # str_nat (nat (- i)) else str_nat (nat i))"

text \<open>The format specification \<open>{i:0wd}\<close>: the sign first, then zeros up to width \<open>w\<close>
  (the sign counts towards the width), then the digits.\<close>

definition zfill :: "nat \<Rightarrow> int \<Rightarrow> string" where
  "zfill w i =
     (let ds = str_nat (nat \<bar>i\<bar>); sg = (if i < 0 then ''-'' else '''')
      in sg @ replicate (w - length sg - length ds) CHR ''0'' @ ds)"

section \<open>Persian date converter\<close>

definition g_d_m :: "int list" where
  "g_d_m = [0, 31, 59, 90, 120, 151, 181, 212, 243, 273, 304, 334]"

definition gregorian_to_jalali :: "int \<Rightarrow> int \<Rightarrow> int \<Rightarrow> py_error + (int \<times> int \<times> int)" where
  "gregorian_to_jalali gy gm gd =
     (let gy2 = (if gm > 2 then gy + 1 else gy) in
      case py_index g_d_m (gm - 1) of
        Inl e \<Rightarrow> Inl e
      | Inr off \<Rightarrow>
          (let days0 = 355666 + (365 * gy) + ((gy2 + 3) div 4) - ((gy2 + 99) div 100)
                         + ((gy2 + 399) div 400) + gd + off;
               jy0 = -1595 + (33 * (days0 div 12053));
               days1 = days0 mod 12053;
               jy1 = jy0 + 4 * (days1 div 1461);
               days2 = days1 mod 1461;
               jy = (if days2 > 365 then jy1 + (days2 - 1) div 365 else jy1);
               days = (if days2 > 365 then (days2 - 1) mod 365 else days2)
           in if days < 186
              then Inr (jy, 1 + (days div 31), 1 + (days mod 31))
              else Inr (jy, 7 + ((days - 186) div 30), 1 + ((days - 186) mod 30))))"

text \<open>The value of \<open>datetime.datetime.now()\<close> is an argument of every function that
  reads the clock.\<close>

record datetime =
  year :: int
  month :: int
  day :: int
  hour :: int
  minute :: int
  second :: int
  microsecond :: int

definition get_jalali_date_string :: "datetime \<Rightarrow> py_error + string" where
  "get_jalali_date_string now =
     (case gregorian_to_jalali (year now) (month now) (day now) of
        Inl e \<Rightarrow> Inl e
      | Inr (jy, jm, jd) \<Rightarrow> Inr (zfill 4 jy @ ''/'' @ zfill 2 jm @ ''/'' @ zfill 2 jd))"

definition get_jalali_datetime_string :: "datetime \<Rightarrow> py_error + string" where
  "get_jalali_datetime_string now =
     (case gregorian_to_jalali (year now) (month now) (day now) of
        Inl e \<Rightarrow> Inl e
      | Inr (jy, jm, jd) \<Rightarrow>
          Inr (zfill 4 jy @ ''/'' @ zfill 2 jm @ ''/'' @ zfill 2 jd @ '' ''
               @ zfill 2 (hour now) @ '':'' @ zfill 2 (minute now)))"

text \<open>The twelve Persian month names of \<open>get_jalali_date_persian_string\<close> and its
  fallback name, as UTF-8 bytes.\<close>

definition months :: "string list" where
  "months =
    [[CHR 0xD9, CHR 0x81, CHR 0xD8, CHR 0xB1, CHR 0xD9, CHR 0x88, CHR 0xD8, CHR 0xB1, CHR 0xD8,
      CHR 0xAF, CHR 0xDB, CHR 0x8C, CHR 0xD9, CHR 0x86],
     [CHR 0xD8, CHR 0xA7, CHR 0xD8, CHR 0xB1, CHR 0xD8, CHR 0xAF, CHR 0xDB, CHR 0x8C, CHR 0xD8,
      CHR 0xA8, CHR 0xD9, CHR 0x87, CHR 0xD8, CHR 0xB4, CHR 0xD8, CHR 0xAA],
     [CHR 0xD8, CHR 0xAE, CHR 0xD8, CHR 0xB1, CHR 0xD8, CHR 0xAF, CHR 0xD8, CHR 0xA7, CHR 0xD8,
      CHR 0xAF],
     [CHR 0xD8, CHR 0xAA, CHR 0xDB, CHR 0x8C, CHR 0xD8, CHR 0xB1],
     [CHR 0xD9, CHR 0x85, CHR 0xD8, CHR 0xB1, CHR 0xD8, CHR 0xAF, CHR 0xD8, CHR 0xA7, CHR 0xD8,
      CHR 0xAF],
     [CHR 0xD8, CHR 0xB4, CHR 0xD9, CHR 0x87, CHR 0xD8, CHR 0xB1, CHR 0xDB, CHR 0x8C, CHR 0xD9,
      CHR 0x88, CHR 0xD8, CHR 0xB1],
     [CHR 0xD9, CHR 0x85, CHR 0xD9, CHR 0x87, CHR 0xD8, CHR 0xB1],
     [CHR 0xD8, CHR 0xA2, CHR 0xD8, CHR 0xA8, CHR 0xD8, CHR 0xA7, CHR 0xD9, CHR 0x86],
     [CHR 0xD8, CHR 0xA2, CHR 0xD8, CHR 0xB0, CHR 0xD8, CHR 0xB1],
     [CHR 0xD8, CHR 0xAF, CHR 0xDB, CHR 0x8C],
     [CHR 0xD8, CHR 0xA8, CHR 0xD9, CHR 0x87, CHR 0xD9, CHR 0x85, CHR 0xD9, CHR 0x86],
     [CHR 0xD8, CHR 0xA7, CHR 0xD8, CHR 0xB3, CHR 0xD9, CHR 0x81, CHR 0xD9, CHR 0x86, CHR 0xD8,
      CHR 0xAF]]"

definition unknown_month :: string where
  "unknown_month =
     [CHR 0xD9, CHR 0x86, CHR 0xD8, CHR 0xA7, CHR 0xD9, CHR 0x85, CHR 0xD8, CHR 0xB9, CHR 0xD9,
      CHR 0x84, CHR 0xD9, CHR 0x88, CHR 0xD9, CHR 0x85]"

definition month_name :: "int \<Rightarrow> py_error + string" where
  "month_name jm = (if 1 \<le> jm \<and> jm \<le> 12 then py_index months (jm - 1) else Inr unknown_month)"

definition get_jalali_date_persian_string :: "datetime \<Rightarrow> py_error + string" where
  "get_jalali_date_persian_string now =
     (case gregorian_to_jalali (year now) (month now) (day now) of
        Inl e \<Rightarrow> Inl e
      | Inr (jy, jm, jd) \<Rightarrow>
          (case month_name jm of
             Inl e \<Rightarrow> Inl e
           | Inr mn \<Rightarrow> Inr (str_int jd @ '' '' @ mn @ '' '' @ str_int jy)))"

text \<open>Validity of a Gregorian date, the hypothesis of the reference-date property.\<close>

definition is_leap :: "int \<Rightarrow> bool" where
  "is_leap y = (y mod 4 = 0 \<and> (y mod 100 \<noteq> 0 \<or> y mod 400 = 0))"

definition days_in_month :: "int \<Rightarrow> int \<Rightarrow> int" where
  "days_in_month y m =
     (if m = 2 then (if is_leap y then 29 else 28)
      else if m = 4 \<or> m = 6 \<or> m = 9 \<or> m = 11 then 30 else 31)"

definition valid_gregorian :: "int \<Rightarrow> int \<Rightarrow> int \<Rightarrow> bool" where
  "valid_gregorian gy gm gd = (1 \<le> gm \<and> gm \<le> 12 \<and> 1 \<le> gd \<and> gd \<le> days_in_month gy gm)"


section \<open>Text helpers\<close>

text \<open>Truth value of an optional string (\<open>None\<close> and \<open>''\<close> are false).\<close>

definition truthy :: "string option \<Rightarrow> bool" where
  "truthy v = (case v of None \<Rightarrow> False | Some s \<Rightarrow> s \<noteq> [])"

definition byte :: "char \<Rightarrow> nat" where
  "byte c = of_char c"

text \<open>
  \<open>str.strip()\<close> removes the characters for which \<open>str.isspace()\<close> holds: U+0009 to
  U+000D, U+001C to U+0020, U+0085, U+00A0, U+1680, U+2000 to U+200A, U+2028, U+2029,
  U+202F, U+205F and U+3000.  \<open>space_len s\<close> is the number of bytes of such a character
  at the head of \<open>s\<close> (0 if there is none); \<open>space_len_rev\<close> reads the reversed text.
\<close>

definition ascii_space :: "char \<Rightarrow> bool" where
  "ascii_space c = ((9 \<le> byte c \<and> byte c \<le> 13) \<or> (28 \<le> byte c \<and> byte c \<le> 32))"

definition space3 :: "nat \<Rightarrow> nat \<Rightarrow> nat \<Rightarrow> bool" where
  "space3 a b c =
     ((a = 0xE1 \<and> b = 0x9A \<and> c = 0x80)
    \<or> (a = 0xE2 \<and> b = 0x80 \<and> ((0x80 \<le> c \<and> c \<le> 0x8A) \<or> c = 0xA8 \<or> c = 0xA9 \<or> c = 0xAF))
    \<or> (a = 0xE2 \<and> b = 0x81 \<and> c = 0x9F)
    \<or> (a = 0xE3 \<and> b = 0x80 \<and> c = 0x80))"

definition space2 :: "nat \<Rightarrow> nat \<Rightarrow> bool" where
  "space2 a b = (a = 0xC2 \<and> (b = 0x85 \<or> b = 0xA0))"

fun space_len :: "string \<Rightarrow> nat" where
  "space_len [] = 0"
| "space_len [a] = (if ascii_space a then 1 else 0)"
| "space_len [a, b] = (if ascii_space a then 1 else if space2 (byte a) (byte b) then 2 else 0)"
| "space_len (a # b # c # s) =
     (if ascii_space a then 1 else if space2 (byte a) (byte b) then 2
      else if space3 (byte a) (byte b) (byte c) then 3 else 0)"

fun space_len_rev :: "string \<Rightarrow> nat" where
  "space_len_rev [] = 0"
| "space_len_rev [a] = (if ascii_space a then 1 else 0)"
| "space_len_rev [a, b] = (if ascii_space a then 1 else if space2 (byte b) (byte a) then 2 else 0)"
| "space_len_rev (a # b # c # s) =
     (if ascii_space a then 1 else if space2 (byte b) (byte a) then 2
      else if space3 (byte c) (byte b) (byte a) then 3 else 0)"

function lstrip_by :: "(string \<Rightarrow> nat) \<Rightarrow> string \<Rightarrow> string" where
  "lstrip_by f s = (if 0 < f s \<and> f s \<le> length s then lstrip_by f (drop (f s) s) else s)"
  by pat_completeness auto
termination
  by (relation "measure (\<lambda>(f, s). length s)") auto

declare lstrip_by.simps [simp del]

definition lstrip :: "string \<Rightarrow> string" where
  "lstrip s = lstrip_by space_len s"

definition rstrip :: "string \<Rightarrow> string" where
  "rstrip s = rev (lstrip_by space_len_rev (rev s))"

definition strip :: "string \<Rightarrow> string" where
  "strip s = rstrip (lstrip s)"

text \<open>SQLite compares two TEXT values with the BINARY collation: byte by byte, a proper
  prefix being smaller.\<close>

fun text_less :: "string \<Rightarrow> string \<Rightarrow> bool" where
  "text_less [] [] = False"
| "text_less [] (y # ys) = True"
| "text_less (x # xs) [] = False"
| "text_less (x # xs) (y # ys) = (byte x < byte y \<or> (x = y \<and> text_less xs ys))"

text \<open>\<open>convert_to_english_numbers\<close>: the Persian digits U+06F0 to U+06F9 (bytes DB B0 to
  DB B9) and the Arabic digits U+0660 to U+0669 (bytes D9 A0 to D9 A9) become ASCII
  digits; every other character is kept.\<close>

fun convert_to_english_numbers :: "string \<Rightarrow> string" where
  "convert_to_english_numbers (a # b # s) =
     (if byte a = 0xDB \<and> 0xB0 \<le> byte b \<and> byte b \<le> 0xB9
        then char_of (48 + (byte b - 0xB0)) # convert_to_english_numbers s
      else if byte a = 0xD9 \<and> 0xA0 \<le> byte b \<and> byte b \<le> 0xA9
        then char_of (48 + (byte b - 0xA0)) # convert_to_english_numbers s
      else a # convert_to_english_numbers (b # s))"
| "convert_to_english_numbers s = s"

text \<open>
  A text is the UTF-8 encoding of a Python \<open>str\<close>.  \<open>utf8_head\<close> reads the code point
  at the head of a text and the number of its bytes, \<open>utf8_decode\<close> the code points of
  the whole text; bytes that encode no \<open>str\<close> (a stray continuation byte, an overlong
  form, a surrogate, a value above U+10FFFF) give \<open>None\<close>.
\<close>

definition continuation :: "char \<Rightarrow> bool" where
  "continuation c = (0x80 \<le> byte c \<and> byte c \<le> 0xBF)"

definition low6 :: "char \<Rightarrow> nat" where
  "low6 c = byte c - 0x80"

fun utf8_head :: "string \<Rightarrow> (nat \<times> nat) option" where
  "utf8_head [] = None"
| "utf8_head (a # s) =
     (if byte a < 0x80 then Some (byte a, 1)
      else if 0xC2 \<le> byte a \<and> byte a \<le> 0xDF
        then (case s of
                b # r \<Rightarrow>
                  if continuation b then Some ((byte a - 0xC0) * 64 + low6 b, 2) else None
              | _ \<Rightarrow> None)
      else if 0xE0 \<le> byte a \<and> byte a \<le> 0xEF
        then (case s of
                b # c # r \<Rightarrow>
                  (let cp = (byte a - 0xE0) * 4096 + low6 b * 64 + low6 c
                   in if continuation b \<and> continuation c \<and> 0x800 \<le> cp
                         \<and> (cp < 0xD800 \<or> 0xDFFF < cp)
                      then Some (cp, 3) else None)
              | _ \<Rightarrow> None)
      else if 0xF0 \<le> byte a \<and> byte a \<le> 0xF4
        then (case s of
                b # c # d # r \<Rightarrow>
                  (let cp = (byte a - 0xF0) * 262144 + low6 b * 4096 + low6 c * 64 + low6 d
                   in if continuation b \<and> continuation c \<and> continuation d
                         \<and> 0x10000 \<le> cp \<and> cp \<le> 0x10FFFF
                      then Some (cp, 4) else None)
              | _ \<Rightarrow> None)
      else None)"

function utf8_decode :: "string \<Rightarrow> nat list option" where
  "utf8_decode s =
     (if s = [] then Some []
      else (case utf8_head s of
              None \<Rightarrow> None
            | Some (cp, n) \<Rightarrow>
                if 0 < n
                then (case utf8_decode (drop n s) of
                        None \<Rightarrow> None
                      | Some cps \<Rightarrow> Some (cp # cps))
                else None))"
  by pat_completeness auto
termination
  by (relation "measure length") auto

declare utf8_decode.simps [simp del]

text \<open>
  The argument \<open>pid\<close> of the database helpers is whatever the caller passes.  \<open>int(pid)\<close>
  returns an integer as it is and raises \<open>TypeError\<close> for \<open>None\<close>.  For a \<open>str\<close> it works
  as CPython 3.11 does (\<open>PyLong_FromUnicodeObject\<close>, Unicode 14.0):

  \<^item> every character is first brought to ASCII (\<open>to_ascii\<close>): a code point below 127
    is kept, another white-space character (U+0085, U+00A0, U+1680, U+2000 to U+200A,
    U+2028, U+2029, U+202F, U+205F, U+3000) becomes a blank, a decimal digit of any
    script (the 66 runs of ten digits of the category Nd, given by the code points of
    their zeros) becomes the ASCII digit of its value, and any other character makes
    the literal invalid;
  \<^item> the white space of C (\<open>c_space\<close>: U+0009 to U+000D and the blank) is skipped at both
    ends, so U+001C to U+001F, which \<open>str.strip()\<close> removes, are not accepted;
  \<^item> what is left is an optional sign followed by decimal digits, single underscores
    allowed between digits;
  \<^item> more than 4300 digits raise \<open>ValueError\<close> (the default of
    \<open>sys.get_int_max_str_digits()\<close>, which the application does not change).

  A text that encodes no \<open>str\<close> is an invalid literal.  SQLite stores 64-bit integers:
  binding a larger one raises.
\<close>

datatype pyval = PInt int | PStr string | PNone

definition is_digit :: "char \<Rightarrow> bool" where
  "is_digit c = (48 \<le> byte c \<and> byte c \<le> 57)"

fun no_double_underscore :: "string \<Rightarrow> bool" where
  "no_double_underscore (a # b # s) =
     (\<not> (a = CHR ''_'' \<and> b = CHR ''_'') \<and> no_double_underscore (b # s))"
| "no_double_underscore s = True"

definition int_literal_ok :: "string \<Rightarrow> bool" where
  "int_literal_ok s =
     (s \<noteq> [] \<and> is_digit (hd s) \<and> is_digit (last s)
      \<and> list_all (\<lambda>c. is_digit c \<or> c = CHR ''_'') s \<and> no_double_underscore s)"

definition digits_value :: "string \<Rightarrow> int" where
  "digits_value s = foldl (\<lambda>acc c. 10 * acc + (int (byte c) - 48)) 0 (filter is_digit s)"

definition unicode_space :: "nat \<Rightarrow> bool" where
  "unicode_space cp =
     (cp = 0x85 \<or> cp = 0xA0 \<or> cp = 0x1680 \<or> (0x2000 \<le> cp \<and> cp \<le> 0x200A)
      \<or> cp = 0x2028 \<or> cp = 0x2029 \<or> cp = 0x202F \<or> cp = 0x205F \<or> cp = 0x3000)"

definition decimal_zeros :: "nat list" where
  "decimal_zeros =
     [0x30, 0x660, 0x6F0, 0x7C0, 0x966, 0x9E6, 0xA66, 0xAE6, 0xB66, 0xBE6, 0xC66, 0xCE6,
      0xD66, 0xDE6, 0xE50, 0xED0, 0xF20, 0x1040, 0x1090, 0x17E0, 0x1810, 0x1946, 0x19D0,
      0x1A80, 0x1A90, 0x1B50, 0x1BB0, 0x1C40, 0x1C50, 0xA620, 0xA8D0, 0xA900, 0xA9D0,
      0xA9F0, 0xAA50, 0xABF0, 0xFF10, 0x104A0, 0x10D30, 0x11066, 0x110F0, 0x11136, 0x111D0,
      0x112F0, 0x11450, 0x114D0, 0x11650, 0x116C0, 0x11730, 0x118E0, 0x11950, 0x11C50,
      0x11D50, 0x11DA0, 0x16A60, 0x16AC0, 0x16B50, 0x1D7CE, 0x1D7D8, 0x1D7E2, 0x1D7EC,
      0x1D7F6, 0x1E140, 0x1E2F0, 0x1E950, 0x1FBF0]"

definition decimal_value :: "nat \<Rightarrow> nat option" where
  "decimal_value cp =
     (case find (\<lambda>z. z \<le> cp \<and> cp < z + 10) decimal_zeros of
        None \<Rightarrow> None
      | Some z \<Rightarrow> Some (cp - z))"

definition to_ascii :: "nat \<Rightarrow> char option" where
  "to_ascii cp =
     (if cp < 127 then Some (char_of cp)
      else if unicode_space cp then Some CHR '' ''
      else (case decimal_value cp of
              None \<Rightarrow> None
            | Some v \<Rightarrow> Some (char_of (48 + v))))"

fun all_ascii :: "nat list \<Rightarrow> string option" where
  "all_ascii [] = Some []"
| "all_ascii (cp # cps) =
     (case to_ascii cp of
        None \<Rightarrow> None
      | Some c \<Rightarrow> (case all_ascii cps of None \<Rightarrow> None | Some s \<Rightarrow> Some (c # s)))"

definition c_space :: "char \<Rightarrow> bool" where
  "c_space c = ((9 \<le> byte c \<and> byte c \<le> 13) \<or> byte c = 32)"

definition max_str_digits :: nat where
  "max_str_digits = 4300"

definition int_of_ascii :: "string \<Rightarrow> py_error + int" where
  "int_of_ascii a =
     (let t = rev (dropWhile c_space (rev (dropWhile c_space a)));
          neg = (t \<noteq> [] \<and> hd t = CHR ''-'');
          body = (if t \<noteq> [] \<and> (hd t = CHR ''-'' \<or> hd t = CHR ''+'') then tl t else t)
      in if int_literal_ok body \<and> length (filter is_digit body) \<le> max_str_digits
         then Inr (if neg then - digits_value body else digits_value body)
         else Inl ValueError)"

definition py_int :: "pyval \<Rightarrow> py_error + int" where
  "py_int v =
     (case v of
        PInt i \<Rightarrow> Inr i
      | PNone \<Rightarrow> Inl TypeError
      | PStr s \<Rightarrow>
          (case utf8_decode s of
             None \<Rightarrow> Inl ValueError
           | Some cps \<Rightarrow>
               (case all_ascii cps of
                  None \<Rightarrow> Inl ValueError
                | Some a \<Rightarrow> int_of_ascii a)))"

definition sqlite_int_ok :: "int \<Rightarrow> bool" where
  "sqlite_int_ok i = (- (2 ^ 63) \<le> i \<and> i < 2 ^ 63)"


section \<open>Date arithmetic of the datetime library\<close>

text \<open>
  \<open>delete_old_sold_products\<close> computes its cutoff as
  \<open>(datetime.now() - timedelta(days=months*30)).isoformat()\<close>.  The library counts days
  in the proleptic Gregorian calendar (day 1 is 0001-01-01) and supports the years 1 to
  9999; a result outside that range raises OverflowError.
\<close>

definition DAYS_IN_MONTH :: "int list" where
  "DAYS_IN_MONTH = [0, 31, 28, 31, 30, 31, 30, 31, 31, 30, 31, 30, 31]"

definition DAYS_BEFORE_MONTH :: "int list" where
  "DAYS_BEFORE_MONTH = [0, 0, 31, 59, 90, 120, 151, 181, 212, 243, 273, 304, 334]"

definition days_before_year :: "int \<Rightarrow> int" where
  "days_before_year y = (y - 1) * 365 + (y - 1) div 4 - (y - 1) div 100 + (y - 1) div 400"

definition days_before_month :: "int \<Rightarrow> int \<Rightarrow> int" where
  "days_before_month y m = DAYS_BEFORE_MONTH ! nat m + (if m > 2 \<and> is_leap y then 1 else 0)"

definition ymd2ord :: "int \<Rightarrow> int \<Rightarrow> int \<Rightarrow> int" where
  "ymd2ord y m d = days_before_year y + days_before_month y m + d"

definition ord2ymd :: "int \<Rightarrow> int \<times> int \<times> int" where
  "ord2ymd ordinal =
     (let n0 = ordinal - 1;
          n400 = n0 div 146097; r400 = n0 mod 146097;
          n100 = r400 div 36524; r100 = r400 mod 36524;
          n4 = r100 div 1461; r4 = r100 mod 1461;
          n1 = r4 div 365; n = r4 mod 365;
          y = n400 * 400 + 1 + n100 * 100 + n4 * 4 + n1
      in if n1 = 4 \<or> n100 = 4 then (y - 1, 12, 31)
         else
           (let leapyear = (n1 = 3 \<and> (n4 \<noteq> 24 \<or> n100 = 3));
                m0 = (n + 50) div 32;
                p0 = DAYS_BEFORE_MONTH ! nat m0 + (if m0 > 2 \<and> leapyear then 1 else 0);
                m = (if p0 > n then m0 - 1 else m0);
                p = (if p0 > n
                     then p0 - (DAYS_IN_MONTH ! nat (m0 - 1)
                                + (if m0 - 1 = 2 \<and> leapyear then 1 else 0))
                     else p0)
            in (y, m, n - p + 1)))"

definition isoformat :: "datetime \<Rightarrow> string" where
  "isoformat t =
     zfill 4 (year t) @ ''-'' @ zfill 2 (month t) @ ''-'' @ zfill 2 (day t) @ ''T''
     @ zfill 2 (hour t) @ '':'' @ zfill 2 (minute t) @ '':'' @ zfill 2 (second t)
     @ (if microsecond t \<noteq> 0 then ''.'' @ zfill 6 (microsecond t) else '''')"

definition minus_days :: "datetime \<Rightarrow> int \<Rightarrow> py_error + datetime" where
  "minus_days t k =
     (if \<bar>k\<bar> > 999999999 then Inl OverflowError
      else
        (let n = ymd2ord (year t) (month t) (day t) - k
         in if n < 1 \<or> n > 3652059 then Inl OverflowError
            else (case ord2ymd n of (y, m, d) \<Rightarrow> Inr (t\<lparr>year := y, month := m, day := d\<rparr>))))"

definition cutoff_date :: "datetime \<Rightarrow> int \<Rightarrow> py_error + string" where
  "cutoff_date now months_back =
     (case minus_days now (months_back * 30) of
        Inl e \<Rightarrow> Inl e
      | Inr t \<Rightarrow> Inr (isoformat t))"


section \<open>Path names (posixpath)\<close>

text \<open>
  On Android, Linux and macOS \<open>os.path\<close> is \<open>posixpath\<close>: \<open>/\<close> separates components and a
  leading \<open>/\<close> makes a path absolute.  The current directory read by \<open>abspath\<close> and
  \<open>relpath\<close> is an argument.  The module of Windows follows in the next section.
\<close>

definition isabs :: "string \<Rightarrow> bool" where
  "isabs p = prefix ''/'' p"

definition path_join :: "string \<Rightarrow> string \<Rightarrow> string" where
  "path_join a b =
     (if prefix ''/'' b then b
      else if a = [] \<or> last a = CHR ''/'' then a @ b
      else a @ ''/'' @ b)"

text \<open>\<open>s.split('/')\<close> and \<open>'/'.join(xs)\<close>.\<close>

fun split_sep :: "string \<Rightarrow> string list" where
  "split_sep [] = [[]]"
| "split_sep (c # s) =
     (if c = CHR ''/'' then [] # split_sep s
      else (c # hd (split_sep s)) # tl (split_sep s))"

fun join_sep :: "string list \<Rightarrow> string" where
  "join_sep [] = []"
| "join_sep [x] = x"
| "join_sep (x # y # ys) = x @ ''/'' @ join_sep (y # ys)"

definition basename :: "string \<Rightarrow> string" where
  "basename p = rev (takeWhile (\<lambda>c. c \<noteq> CHR ''/'') (rev p))"

definition dirname :: "string \<Rightarrow> string" where
  "dirname p =
     (let h = rev (dropWhile (\<lambda>c. c \<noteq> CHR ''/'') (rev p))
      in if h \<noteq> [] \<and> \<not> list_all (\<lambda>c. c = CHR ''/'') h
         then rev (dropWhile (\<lambda>c. c = CHR ''/'') (rev h)) else h)"

text \<open>\<open>normpath\<close>: empty and \<open>.\<close> components are dropped, a \<open>..\<close> removes the
  component before it, is dropped at the root of an absolute path, and is kept at the
  head of a relative one.\<close>

definition norm_step :: "bool \<Rightarrow> string list \<Rightarrow> string \<Rightarrow> string list" where
  "norm_step rooted new_comps part =
     (if part = [] \<or> part = ''.'' then new_comps
      else if part \<noteq> ''..'' \<or> (\<not> rooted \<and> new_comps = [])
              \<or> (new_comps \<noteq> [] \<and> last new_comps = ''..'')
        then new_comps @ [part]
      else if new_comps \<noteq> [] then butlast new_comps
      else new_comps)"

definition initial_slashes :: "string \<Rightarrow> nat" where
  "initial_slashes p =
     (if prefix ''/'' p then (if prefix ''//'' p \<and> \<not> prefix ''///'' p then 2 else 1) else 0)"

definition normpath :: "string \<Rightarrow> string" where
  "normpath p =
     (if p = [] then ''.''
      else
        (let comps = foldl (norm_step (initial_slashes p \<noteq> 0)) [] (split_sep p);
             path = replicate (initial_slashes p) CHR ''/'' @ join_sep comps
         in if path = [] then ''.'' else path))"

definition abspath :: "string \<Rightarrow> string \<Rightarrow> string" where
  "abspath cwd p = normpath (if isabs p then p else path_join cwd p)"

text \<open>\<open>relpath\<close>: the components of the two absolute paths after their longest common
  prefix, one \<open>..\<close> for each remaining component of \<open>start\<close>.\<close>

fun commonprefix :: "'a list \<Rightarrow> 'a list \<Rightarrow> 'a list" where
  "commonprefix (x # xs) (y # ys) = (if x = y then x # commonprefix xs ys else [])"
| "commonprefix xs ys = []"

definition relpath :: "string \<Rightarrow> string \<Rightarrow> string \<Rightarrow> py_error + string" where
  "relpath cwd path start =
     (if path = [] then Inl ValueError
      else
        (let start_list = filter (\<lambda>x. x \<noteq> []) (split_sep (abspath cwd start));
             path_list = filter (\<lambda>x. x \<noteq> []) (split_sep (abspath cwd path));
             i = length (commonprefix start_list path_list);
             rel_list = replicate (length start_list - i) ''..'' @ drop i path_list
         in if rel_list = [] then Inr ''.''
            else Inr (foldl path_join (hd rel_list) (tl rel_list))))"


section \<open>Path names (ntpath)\<close>

text \<open>
  On Windows \<open>os.path\<close> is \<open>ntpath\<close> (CPython 3.11): the backslash separates components,
  \<open>/\<close> is accepted in its place, and a path may start with a drive, which is a letter
  followed by a colon or a UNC share.  A text with \<open>/\<close> for every backslash is easier to
  read: \<open>backslashes ''C:/app''\<close> is the directory \<open>app\<close> at the root of drive \<open>C:\<close>.

  Three things are outside the functions below and are handled as follows.  The case
  mappings, \<open>str.lower\<close> of \<open>join\<close> and \<open>normcase\<close> of \<open>relpath\<close> (a call of the operating
  system on Windows), are arguments named \<open>lower\<close> and \<open>normcase\<close>; \<open>str.upper\<close> is applied
  by \<open>splitdrive\<close> only to compare with the ASCII text of the UNC prefix, which only ASCII
  letters can give, so the ASCII mapping is exact there.  \<open>normpath\<close> is the function
  written in Python in \<open>ntpath\<close>, which the interpreter replaces by a C function on
  Windows.  \<open>abspath\<close> is the function of \<open>ntpath\<close> that joins the current directory and
  normalises, used where the call of the operating system is not available; the current
  directory is an argument.
\<close>

definition bslash :: char where
  "bslash = CHR 0x5C"

definition backslashes :: "string \<Rightarrow> string" where
  "backslashes p = map (\<lambda>c. if c = CHR ''/'' then bslash else c) p"

definition is_sep :: "char \<Rightarrow> bool" where
  "is_sep c = (c = bslash \<or> c = CHR ''/'')"

definition ascii_upper :: "char \<Rightarrow> char" where
  "ascii_upper c = (if 97 \<le> byte c \<and> byte c \<le> 122 then char_of (byte c - 32) else c)"

text \<open>\<open>s.find(sep, start)\<close>, \<open>s.split(sep)\<close> and \<open>sep.join(xs)\<close> for the backslash \<open>sep\<close>;
  \<open>char_len s\<close> is the number of bytes of the first character of \<open>s\<close>.\<close>

definition find_sep :: "string \<Rightarrow> nat \<Rightarrow> nat option" where
  "find_sep s start =
     (if bslash \<in> set (drop start s)
      then Some (start + length (takeWhile (\<lambda>c. c \<noteq> bslash) (drop start s)))
      else None)"

definition split_bslash :: "string \<Rightarrow> string list" where
  "split_bslash s =
     foldr (\<lambda>c acc. if c = bslash then [] # acc else (c # hd acc) # tl acc) s [[]]"

fun join_bslash :: "string list \<Rightarrow> string" where
  "join_bslash [] = []"
| "join_bslash [x] = x"
| "join_bslash (x # y # ys) = x @ [bslash] @ join_bslash (y # ys)"

definition char_len :: "string \<Rightarrow> nat" where
  "char_len s = (case utf8_head s of None \<Rightarrow> 1 | Some (cp, n) \<Rightarrow> n)"

text \<open>\<open>splitdrive\<close>: a UNC or device drive reaches up to the second separator after its
  start, a letter drive is the first character and the colon after it.\<close>

definition unc_prefix :: string where
  "unc_prefix = [bslash, bslash, CHR ''?'', bslash, CHR ''U'', CHR ''N'', CHR ''C'', bslash]"

definition nt_splitdrive :: "string \<Rightarrow> string \<times> string" where
  "nt_splitdrive p =
     (let normp = backslashes p
      in if take 2 normp = [bslash, bslash]
         then (let start = (if map ascii_upper (take 8 normp) = unc_prefix then 8 else 2)
               in case find_sep normp start of
                    None \<Rightarrow> (p, [])
                  | Some index \<Rightarrow>
                      (case find_sep normp (index + 1) of
                         None \<Rightarrow> (p, [])
                       | Some index2 \<Rightarrow> (take index2 p, drop index2 p)))
         else if take 1 (drop (char_len normp) normp) = '':''
           then (take (char_len p + 1) p, drop (char_len p + 1) p)
         else ([], p))"

definition nt_isabs :: "string \<Rightarrow> bool" where
  "nt_isabs s =
     (let t = backslashes s
      in prefix [bslash] t \<or> prefix [CHR '':'', bslash] (drop (char_len t) t))"

text \<open>\<open>join\<close>: the drive and the path of the result so far are the state of the loop over
  the further arguments.\<close>

definition nt_join_step ::
  "(string \<Rightarrow> string) \<Rightarrow> string \<times> string \<Rightarrow> string \<Rightarrow> string \<times> string" where
  "nt_join_step lower result p =
     (let result_drive = fst result;
          result_path = snd result;
          p_drive = fst (nt_splitdrive p);
          p_path = snd (nt_splitdrive p)
      in if p_path \<noteq> [] \<and> is_sep (hd p_path)
         then (if p_drive \<noteq> [] \<or> result_drive = [] then p_drive else result_drive, p_path)
         else if p_drive \<noteq> [] \<and> p_drive \<noteq> result_drive \<and> lower p_drive \<noteq> lower result_drive
           then (p_drive, p_path)
         else (if p_drive \<noteq> [] \<and> p_drive \<noteq> result_drive then p_drive else result_drive,
               (if result_path \<noteq> [] \<and> \<not> is_sep (last result_path)
                then result_path @ [bslash] else result_path) @ p_path))"

definition nt_join_list :: "(string \<Rightarrow> string) \<Rightarrow> string \<Rightarrow> string list \<Rightarrow> string" where
  "nt_join_list lower path paths =
     (let result = foldl (nt_join_step lower) (nt_splitdrive path) paths;
          result_drive = fst result;
          result_path = snd result
      in if result_path \<noteq> [] \<and> \<not> is_sep (hd result_path)
            \<and> result_drive \<noteq> [] \<and> last result_drive \<noteq> CHR '':''
         then result_drive @ [bslash] @ result_path
         else result_drive @ result_path)"

definition nt_join :: "(string \<Rightarrow> string) \<Rightarrow> string \<Rightarrow> string \<Rightarrow> string" where
  "nt_join lower a b = nt_join_list lower a [b]"

text \<open>\<open>basename\<close> is the second part of \<open>split\<close>: what follows the last separator of the
  path without its drive.\<close>

definition nt_basename :: "string \<Rightarrow> string" where
  "nt_basename p = rev (takeWhile (\<lambda>c. \<not> is_sep c) (rev (snd (nt_splitdrive p))))"

text \<open>\<open>normpath\<close>: the loop deletes components in place; the components before the index
  of the loop are the list \<open>comps\<close> of \<open>nt_norm_step\<close>.\<close>

definition nt_norm_step :: "bool \<Rightarrow> string list \<Rightarrow> string \<Rightarrow> string list" where
  "nt_norm_step rooted comps part =
     (if part = [] \<or> part = ''.'' then comps
      else if part = ''..''
        then (if comps \<noteq> [] \<and> last comps \<noteq> ''..'' then butlast comps
              else if comps = [] \<and> rooted then comps
              else comps @ [part])
      else comps @ [part])"

definition nt_normpath :: "string \<Rightarrow> string" where
  "nt_normpath path =
     (let drive = fst (nt_splitdrive (backslashes path));
          rest = snd (nt_splitdrive (backslashes path));
          pre = (if prefix [bslash] rest then drive @ [bslash] else drive);
          comps = foldl (nt_norm_step (pre \<noteq> [] \<and> last pre = bslash)) []
                    (split_bslash (dropWhile (\<lambda>c. c = bslash) rest))
      in pre @ join_bslash (if pre = [] \<and> comps = [] then [''.''] else comps))"

definition nt_abspath :: "(string \<Rightarrow> string) \<Rightarrow> string \<Rightarrow> string \<Rightarrow> string" where
  "nt_abspath lower cwd path =
     nt_normpath (if nt_isabs path then path else nt_join lower cwd path)"

text \<open>\<open>relpath\<close> raises \<open>ValueError\<close> for an empty path and for two paths on different
  drives.\<close>

definition nt_relpath ::
  "(string \<Rightarrow> string) \<Rightarrow> (string \<Rightarrow> string) \<Rightarrow> string \<Rightarrow> string \<Rightarrow> string \<Rightarrow> py_error + string"
  where
  "nt_relpath lower normcase cwd path start =
     (if path = [] then Inl ValueError
      else
        (let start_abs = nt_abspath lower cwd (nt_normpath start);
             path_abs = nt_abspath lower cwd (nt_normpath path)
         in if normcase (fst (nt_splitdrive start_abs)) \<noteq> normcase (fst (nt_splitdrive path_abs))
            then Inl ValueError
            else
              (let start_list = filter (\<lambda>x. x \<noteq> []) (split_bslash (snd (nt_splitdrive start_abs)));
                   path_list = filter (\<lambda>x. x \<noteq> []) (split_bslash (snd (nt_splitdrive path_abs)));
                   i = length (takeWhile (\<lambda>e. normcase (fst e) = normcase (snd e))
                                 (zip start_list path_list));
                   rel_list = replicate (length start_list - i) ''..'' @ drop i path_list
               in if rel_list = [] then Inr ''.''
                  else Inr (nt_join_list lower (hd rel_list) (tl rel_list)))))"

text \<open>
  \<open>os.path\<close> is one of the two modules.  \<open>Nt lower normcase\<close> is \<open>ntpath\<close> with the two case
  mappings of the platform.
\<close>

datatype os_path = Posix | Nt "string \<Rightarrow> string" "string \<Rightarrow> string"

fun os_normpath :: "os_path \<Rightarrow> string \<Rightarrow> string" where
  "os_normpath Posix p = normpath p"
| "os_normpath (Nt lower normcase) p = nt_normpath p"

fun os_join :: "os_path \<Rightarrow> string \<Rightarrow> string \<Rightarrow> string" where
  "os_join Posix a b = path_join a b"
| "os_join (Nt lower normcase) a b = nt_join lower a b"

fun os_basename :: "os_path \<Rightarrow> string \<Rightarrow> string" where
  "os_basename Posix p = basename p"
| "os_basename (Nt lower normcase) p = nt_basename p"

fun os_relpath :: "os_path \<Rightarrow> string \<Rightarrow> string \<Rightarrow> string \<Rightarrow> py_error + string" where
  "os_relpath Posix cwd path start = relpath cwd path start"
| "os_relpath (Nt lower normcase) cwd path start = nt_relpath lower normcase cwd path start"


section \<open>The database\<close>

text \<open>
  A row of the table \<open>products\<close> has the columns of a product dictionary and the
  primary key \<open>id\<close>; a NULL column is \<open>None\<close>.  The weight is stored and copied but
  never computed with, so it is kept as the number it denotes.  The tables are lists of
  rows in the order of insertion, and the counters are those of AUTOINCREMENT.
\<close>

record product_fields =
  product_code :: "string option"
  name :: "string option"
  category :: "string option"
  base_number :: "string option"
  weight :: "real option"
  quantity :: "int option"
  purity :: "string option"
  image_col :: "string option"
  thumb :: "string option"
  notes_col :: "string option"
  created_at :: "string option"
  sold_invoice :: "string option"
  sold_at :: "string option"

record product = product_fields +
  id_col :: int

record base_row =
  b_id :: int
  b_category :: "string option"
  b_base_number :: "string option"
  b_image :: "string option"

record db =
  products :: "product list"
  bases :: "base_row list"
  products_seq :: int
  bases_seq :: int

definition make_row :: "int \<Rightarrow> 'a product_fields_scheme \<Rightarrow> product" where
  "make_row i p =
     \<lparr>product_code = product_code p, name = name p, category = category p,
      base_number = base_number p, weight = weight p, quantity = quantity p,
      purity = purity p, image_col = image_col p, thumb = thumb p, notes_col = notes_col p,
      created_at = created_at p, sold_invoice = sold_invoice p, sold_at = sold_at p,
      id_col = i\<rparr>"

definition create_tables :: db where
  "create_tables = \<lparr>products = [], bases = [], products_seq = 0, bases_seq = 0\<rparr>"

definition next_rowid :: "int \<Rightarrow> int list \<Rightarrow> int" where
  "next_rowid s ids = max s (fold max ids 0) + 1"

text \<open>The UNIQUE constraint on \<open>product_code\<close>: a non-NULL code that some row already
  carries cannot be stored again.\<close>

definition code_taken :: "product list \<Rightarrow> string option \<Rightarrow> bool" where
  "code_taken rows c = (c \<noteq> None \<and> list_ex (\<lambda>r. product_code r = c) rows)"

definition none_if_falsy :: "string option \<Rightarrow> string option" where
  "none_if_falsy v = (if truthy v then v else None)"

definition add_product :: "db \<Rightarrow> 'a product_fields_scheme \<Rightarrow> py_error + (db \<times> int)" where
  "add_product d p =
     (if code_taken (products d) (product_code p) then Inl IntegrityError
      else
        (let i = next_rowid (products_seq d) (map id_col (products d));
             row = (make_row i p)\<lparr>sold_invoice := none_if_falsy (sold_invoice p),
                                   sold_at := none_if_falsy (sold_at p)\<rparr>
         in Inr (d\<lparr>products := products d @ [row], products_seq := i\<rparr>, i)))"

definition update_product :: "db \<Rightarrow> int \<Rightarrow> 'a product_fields_scheme \<Rightarrow> py_error + db" where
  "update_product d pid p =
     (if list_ex (\<lambda>r. id_col r = pid) (products d)
         \<and> code_taken (filter (\<lambda>r. id_col r \<noteq> pid) (products d)) (product_code p)
      then Inl IntegrityError
      else Inr (d\<lparr>products := map (\<lambda>r. if id_col r = pid then make_row pid p else r)
                                   (products d)\<rparr>))"

text \<open>The files the database helpers touch: the paths that exist, and those among
  them that cannot be removed (\<open>os.remove\<close> raises on them).\<close>

record filesystem =
  files :: "string list"
  locked :: "string list"

definition path_exists :: "filesystem \<Rightarrow> string \<Rightarrow> bool" where
  "path_exists fs p = (p \<in> set (files fs))"

definition os_remove :: "filesystem \<Rightarrow> string \<Rightarrow> py_error + filesystem" where
  "os_remove fs p =
     (if p \<notin> set (files fs) \<or> p \<in> set (locked fs) then Inl OSError
      else Inr (fs\<lparr>files := removeAll p (files fs)\<rparr>))"

text \<open>\<open>if img and os.path.exists(img): os.remove(img)\<close>, as \<open>delete_product\<close> runs it
  (every exception swallowed) and as \<open>delete_old_sold_products\<close> runs it (the exception
  ends the work on the current row).\<close>

definition remove_if_exists :: "filesystem \<Rightarrow> string option \<Rightarrow> py_error + filesystem" where
  "remove_if_exists fs v =
     (case v of
        None \<Rightarrow> Inr fs
      | Some p \<Rightarrow> if p \<noteq> [] \<and> path_exists fs p then os_remove fs p else Inr fs)"

definition remove_quietly :: "filesystem \<Rightarrow> string option \<Rightarrow> filesystem" where
  "remove_quietly fs v = (case remove_if_exists fs v of Inl e \<Rightarrow> fs | Inr fs' \<Rightarrow> fs')"

definition delete_product :: "db \<Rightarrow> filesystem \<Rightarrow> pyval \<Rightarrow> py_error + (db \<times> filesystem)" where
  "delete_product d fs pid =
     (case py_int pid of
        Inl e \<Rightarrow> Inr (d, fs)
      | Inr pid_int \<Rightarrow>
          if \<not> sqlite_int_ok pid_int then Inl OverflowError
          else
            (let fs' = (case find (\<lambda>r. id_col r = pid_int) (products d) of
                          None \<Rightarrow> fs
                        | Some row \<Rightarrow>
                            remove_quietly (remove_quietly fs (image_col row)) (thumb row))
             in Inr (d\<lparr>products := filter (\<lambda>r. id_col r \<noteq> pid_int) (products d)\<rparr>, fs')))"

text \<open>\<open>get_all_products\<close> without a limit: \<open>ORDER BY id DESC\<close>, the sold rows left out
  unless asked for.\<close>

definition get_all_products :: "db \<Rightarrow> bool \<Rightarrow> product list" where
  "get_all_products d include_sold =
     rev (sort_key id_col
            (filter (\<lambda>r. include_sold \<or> \<not> truthy (sold_invoice r)) (products d)))"

definition get_product_by_code :: "db \<Rightarrow> string \<Rightarrow> product option" where
  "get_product_by_code d code = find (\<lambda>r. product_code r = Some code) (products d)"

definition base_hit :: "string \<Rightarrow> string \<Rightarrow> base_row \<Rightarrow> bool" where
  "base_hit c b r = (b_category r = Some c \<and> b_base_number r = Some b)"

definition set_base_image :: "db \<Rightarrow> string \<Rightarrow> string \<Rightarrow> string \<Rightarrow> db" where
  "set_base_image d c b image_path =
     (if list_ex (base_hit c b) (bases d)
      then d\<lparr>bases := map (\<lambda>r. if base_hit c b r then r\<lparr>b_image := Some image_path\<rparr> else r)
                            (bases d)\<rparr>
      else
        (let i = next_rowid (bases_seq d) (map b_id (bases d))
         in d\<lparr>bases := bases d @ [\<lparr>b_id = i, b_category = Some c, b_base_number = Some b,
                                      b_image = Some image_path\<rparr>],
               bases_seq := i\<rparr>))"

definition get_base_image :: "db \<Rightarrow> string \<Rightarrow> string \<Rightarrow> string option" where
  "get_base_image d c b =
     (case find (base_hit (strip c) b) (bases d) of
        None \<Rightarrow> None
      | Some r \<Rightarrow> b_image r)"

text \<open>\<open>mark_as_sold\<close>.  The JSON sidecar it writes after the commit does not touch the
  database and is left out.\<close>

definition sold_update :: "string \<Rightarrow> string option \<Rightarrow> string option \<Rightarrow> string \<Rightarrow> product \<Rightarrow> product" where
  "sold_update invoice img_to_set thumb_to_set ts r =
     r\<lparr>sold_invoice := Some invoice, image_col := img_to_set, thumb := thumb_to_set,
       quantity := Some 0, sold_at := Some ts\<rparr>"

definition mark_as_sold ::
  "db \<Rightarrow> pyval \<Rightarrow> string \<Rightarrow> string option \<Rightarrow> string option \<Rightarrow> datetime \<Rightarrow> py_error + db" where
  "mark_as_sold d pid invoice sold_image sold_thumb now =
     (case py_int pid of
        Inl e \<Rightarrow> Inr d
      | Inr pid_int \<Rightarrow>
          if \<not> sqlite_int_ok pid_int then Inl OverflowError
          else
            (case find (\<lambda>r. id_col r = pid_int) (products d) of
               None \<Rightarrow> Inr d
             | Some r \<Rightarrow>
                 (let img_to_set = (if truthy sold_image then sold_image else image_col r);
                      thumb_to_set = (if truthy sold_thumb then sold_thumb else thumb r)
                  in case get_jalali_datetime_string now of
                       Inl e \<Rightarrow> Inr d
                     | Inr ts \<Rightarrow>
                         Inr (d\<lparr>products :=
                                  map (\<lambda>x. if id_col x = pid_int
                                            then sold_update invoice img_to_set thumb_to_set ts x
                                            else x)
                                      (products d)\<rparr>))))"

definition clear_all_data :: "db \<Rightarrow> db" where
  "clear_all_data d = d\<lparr>products := [], bases := []\<rparr>"


text \<open>The UNIQUE(category, base_number) constraint of the table \<open>bases\<close>: no two rows
  carry the same pair (a row with a NULL in the pair is never a duplicate).\<close>

definition base_key :: "base_row \<Rightarrow> string option \<times> string option" where
  "base_key r = (b_category r, b_base_number r)"

definition bases_unique :: "db \<Rightarrow> bool" where
  "bases_unique d =
     distinct (map base_key
                 (filter (\<lambda>r. b_category r \<noteq> None \<and> b_base_number r \<noteq> None) (bases d)))"


section \<open>Product codes\<close>

text \<open>The category prefixes of \<open>GoldApp.prefix_map\<close> (the keys are the Persian category
  names, as UTF-8 bytes); an unknown category gets \<open>X\<close>.\<close>

definition prefix_map :: "(string \<times> string) list" where
  "prefix_map =
    [([CHR 0xD8, CHR 0xA7, CHR 0xD9, CHR 0x84, CHR 0xD9, CHR 0x86, CHR 0xDA, CHR 0xAF, CHR 0xD9,
       CHR 0x88], ''L''),
     ([CHR 0xDA, CHR 0xAF, CHR 0xD9, CHR 0x88, CHR 0xD8, CHR 0xB4, CHR 0xD9, CHR 0x88, CHR 0xD8,
       CHR 0xA7, CHR 0xD8, CHR 0xB1, CHR 0xD9, CHR 0x87], ''G''),
     ([CHR 0xD8, CHR 0xAF, CHR 0xD8, CHR 0xB3, CHR 0xD8, CHR 0xAA, CHR 0xD8, CHR 0xA8, CHR 0xD9,
       CHR 0x86, CHR 0xD8, CHR 0xAF], ''D''),
     ([CHR 0xDA, CHR 0xAF, CHR 0xD8, CHR 0xB1, CHR 0xD8, CHR 0xAF, CHR 0xD9, CHR 0x86, CHR 0xD8,
       CHR 0xA8, CHR 0xD9, CHR 0x86, CHR 0xD8, CHR 0xAF], ''N''),
     ([CHR 0xD8, CHR 0xA7, CHR 0xD9, CHR 0x86, CHR 0xDA, CHR 0xAF, CHR 0xD8, CHR 0xB4, CHR 0xD8,
       CHR 0xAA, CHR 0xD8, CHR 0xB1], ''R''),
     ([CHR 0xD9, CHR 0xBE, CHR 0xD9, CHR 0x84, CHR 0xD8, CHR 0xA7, CHR 0xDA, CHR 0xA9], ''P''),
     ([CHR 0xD9, CHR 0xBE, CHR 0xD8, CHR 0xA7, CHR 0xD8, CHR 0xB1, CHR 0xD8, CHR 0xB3, CHR 0xDB,
       CHR 0x8C, CHR 0xD8, CHR 0xA7, CHR 0xD9, CHR 0x86], ''PS''),
     ([CHR 0xD8, CHR 0xB2, CHR 0xD9, CHR 0x86, CHR 0xD8, CHR 0xAC, CHR 0xDB, CHR 0x8C, CHR 0xD8,
       CHR 0xB1], ''Z''),
     ([CHR 0xD8, CHR 0xB4, CHR 0xD9, CHR 0x85, CHR 0xD8, CHR 0xB4], ''SH''),
     ([CHR 0xD8, CHR 0xB3, CHR 0xDA, CHR 0xA9, CHR 0xD9, CHR 0x87], ''S''),
     ([CHR 0xD9, CHR 0x85, CHR 0xD8, CHR 0xAA, CHR 0xD9, CHR 0x81, CHR 0xD8, CHR 0xB1, CHR 0xD9,
       CHR 0x82, CHR 0xD9, CHR 0x87], ''M''),
     ([CHR 0xD8, CHR 0xA7, CHR 0xD8, CHR 0xA8, CHR 0xD8, CHR 0xB4, CHR 0xD8, CHR 0xAF, CHR 0xD9,
       CHR 0x87], ''A'')]"

definition prefix_of_category :: "string \<Rightarrow> string" where
  "prefix_of_category c = (case map_of prefix_map c of None \<Rightarrow> ''X'' | Some p \<Rightarrow> p)"

text \<open>
  \<open>get_next_seq_for_category\<close> matches every stored code against
  \<open>^prefix(\d+)$\<close>, ignoring case, and returns one more than the largest number found.
  The match is modelled for ASCII letters and digits, which is what the application
  itself writes into the column.
\<close>

definition ascii_lower :: "char \<Rightarrow> char" where
  "ascii_lower c = (if 65 \<le> byte c \<and> byte c \<le> 90 then char_of (byte c + 32) else c)"

definition code_number :: "string \<Rightarrow> string \<Rightarrow> nat option" where
  "code_number pref pc =
     (let ds = drop (length pref) pc
      in if map ascii_lower (take (length pref) pc) = map ascii_lower pref
            \<and> ds \<noteq> [] \<and> list_all is_digit ds
         then Some (nat (digits_value ds)) else None)"

definition get_next_seq_for_category :: "db \<Rightarrow> string \<Rightarrow> nat" where
  "get_next_seq_for_category d c =
     fold (\<lambda>p max_n.
             (let pc = strip (case product_code p of None \<Rightarrow> [] | Some s \<Rightarrow> s)
              in if pc = [] then max_n
                 else (case code_number (prefix_of_category c) pc of
                         None \<Rightarrow> max_n
                       | Some n \<Rightarrow> if n > max_n then n else max_n)))
          (get_all_products d True) 0 + 1"

text \<open>
  The loop \<open>while self.db.get_product_by_code(code) is not None: seq += 1\<close>.  It ends
  because the decimal numerals of different numbers differ and the table is finite.
\<close>

lemma str_nat_nonempty: "str_nat n \<noteq> []"
  by (subst str_nat.simps) simp

lemma digit_char_inj:
  assumes "a < 10" "b < 10" "digit_char a = digit_char b"
  shows "a = b"
proof -
  have "of_char (digit_char a) = (of_char (digit_char b) :: nat)"
    using assms(3) by simp
  then have "(48 + a) mod 256 = (48 + b) mod 256"
    by (simp add: digit_char_def)
  with assms(1,2) show ?thesis by simp
qed

lemma str_nat_inj: "str_nat m = str_nat n \<Longrightarrow> m = n"
proof (induction m arbitrary: n rule: str_nat.induct)
  case (1 m)
  show ?case
  proof (cases "m < 10")
    case small_m: True
    show ?thesis
    proof (cases "n < 10")
      case True
      with small_m "1.prems" show ?thesis
        by (simp add: str_nat.simps [of m] str_nat.simps [of n] digit_char_inj)
    next
      case False
      with small_m "1.prems" have "str_nat (n div 10) = []"
        by (simp add: str_nat.simps [of m] str_nat.simps [of n])
      then show ?thesis by (simp add: str_nat_nonempty)
    qed
  next
    case big_m: False
    show ?thesis
    proof (cases "n < 10")
      case True
      with big_m "1.prems" have "str_nat (m div 10) = []"
        by (simp add: str_nat.simps [of m] str_nat.simps [of n])
      then show ?thesis by (simp add: str_nat_nonempty)
    next
      case False
      with big_m "1.prems" have
        eq: "str_nat (m div 10) = str_nat (n div 10)"
        and dg: "digit_char (m mod 10) = digit_char (n mod 10)"
        by (simp_all add: str_nat.simps [of m] str_nat.simps [of n])
      have "m div 10 = n div 10"
        using "1.IH" [OF big_m eq] .
      moreover have "m mod 10 = n mod 10"
        using dg by (intro digit_char_inj) simp_all
      ultimately show ?thesis
        by (metis div_mult_mod_eq)
    qed
  qed
qed

lemma finite_candidates:
  "finite {n. s \<le> n \<and> get_product_by_code d (pfx @ str_nat n) \<noteq> None}"
proof -
  let ?codes = "set (map product_code (products d))"
  have "{n. s \<le> n \<and> get_product_by_code d (pfx @ str_nat n) \<noteq> None}
          \<subseteq> (\<lambda>n. Some (pfx @ str_nat n)) -` ?codes"
  proof
    fix n
    assume "n \<in> {n. s \<le> n \<and> get_product_by_code d (pfx @ str_nat n) \<noteq> None}"
    then obtain r where "r \<in> set (products d)" "product_code r = Some (pfx @ str_nat n)"
      by (auto simp: get_product_by_code_def find_None_iff)
    then have "Some (pfx @ str_nat n) \<in> product_code ` set (products d)"
      by (intro image_eqI [where x = r]) simp_all
    then show "n \<in> (\<lambda>n. Some (pfx @ str_nat n)) -` ?codes"
      by simp
  qed
  moreover have "inj (\<lambda>n. Some (pfx @ str_nat n))"
    by (auto simp: inj_on_def dest: str_nat_inj)
  then have "finite ((\<lambda>n. Some (pfx @ str_nat n)) -` ?codes)"
    by (intro finite_vimageI) simp_all
  ultimately show ?thesis
    by (rule finite_subset)
qed

function find_free_code :: "db \<Rightarrow> string \<Rightarrow> nat \<Rightarrow> nat" where
  "find_free_code d pfx s =
     (if get_product_by_code d (pfx @ str_nat s) \<noteq> None then find_free_code d pfx (s + 1)
      else s)"
  by pat_completeness auto
termination
proof (relation "measure (\<lambda>(d, pfx, s).
         card {n. s \<le> n \<and> get_product_by_code d (pfx @ str_nat n) \<noteq> None})")
  show "wf (measure (\<lambda>(d, pfx, s).
         card {n. s \<le> n \<and> get_product_by_code d (pfx @ str_nat n) \<noteq> None}))"
    by simp
next
  fix d :: db and pfx :: string and s :: nat
  assume taken: "get_product_by_code d (pfx @ str_nat s) \<noteq> None"
  let ?A = "{n. s + 1 \<le> n \<and> get_product_by_code d (pfx @ str_nat n) \<noteq> None}"
  let ?B = "{n. s \<le> n \<and> get_product_by_code d (pfx @ str_nat n) \<noteq> None}"
  have "?A \<subseteq> ?B" "s \<in> ?B" "s \<notin> ?A"
    using taken by auto
  then have "?A \<subset> ?B"
    by blast
  then have "card ?A < card ?B"
    using finite_candidates [of s d pfx] by (intro psubset_card_mono)
  then show "((d, pfx, s + 1), (d, pfx, s)) \<in> measure (\<lambda>(d, pfx, s).
         card {n. s \<le> n \<and> get_product_by_code d (pfx @ str_nat n) \<noteq> None})"
    by simp
qed

declare find_free_code.simps [simp del]


section \<open>Operations of the application\<close>

subsection \<open>Adding products\<close>

text \<open>
  An entry of the batch screen.  \<open>save_batch_products\<close> reads the category and the base
  number from the form (stripped, with a default when nothing is left), and gives each
  entry the next free code of the category, quantity 1 and a Jalali timestamp.  An
  exception ends the batch; the rows already inserted stay.
\<close>

record batch_entry =
  e_name :: string
  e_weight :: real
  e_purity :: string
  e_notes :: string
  e_image :: string
  e_thumb :: string

definition general_category :: string where
  "general_category =
     [CHR 0xD8, CHR 0xB9, CHR 0xD9, CHR 0x85, CHR 0xD9, CHR 0x88, CHR 0xD9, CHR 0x85, CHR 0xDB,
      CHR 0x8C]"

definition product_word :: string where
  "product_word =
     [CHR 0xD9, CHR 0x85, CHR 0xD8, CHR 0xAD, CHR 0xD8, CHR 0xB5, CHR 0xD9, CHR 0x88, CHR 0xD9,
      CHR 0x84, CHR 0x20]"

definition or_default :: "string \<Rightarrow> string \<Rightarrow> string" where
  "or_default s dflt = (if s = [] then dflt else s)"

definition batch_product :: "string \<Rightarrow> string \<Rightarrow> string \<Rightarrow> string \<Rightarrow> nat \<Rightarrow> batch_entry \<Rightarrow> product_fields" where
  "batch_product code c b ts idx e =
     \<lparr>product_code = Some code,
      name = Some (or_default (e_name e) (product_word @ str_nat (idx + 1))),
      category = Some c, base_number = Some b, weight = Some (e_weight e),
      quantity = Some 1, purity = Some (e_purity e), image_col = Some (e_image e),
      thumb = Some (e_thumb e), notes_col = Some (e_notes e), created_at = Some ts,
      sold_invoice = None, sold_at = None\<rparr>"

fun save_batch_loop :: "string \<Rightarrow> string \<Rightarrow> datetime \<Rightarrow> nat \<Rightarrow> batch_entry list \<Rightarrow> db \<Rightarrow> db" where
  "save_batch_loop c b now idx [] d = d"
| "save_batch_loop c b now idx (e # es) d =
     (let s = get_next_seq_for_category d c;
          pfx = prefix_of_category c;
          code = pfx @ str_nat (find_free_code d pfx s)
      in case get_jalali_datetime_string now of
           Inl err \<Rightarrow> d
         | Inr ts \<Rightarrow>
             (case add_product d (batch_product code c b ts idx e) of
                Inl err \<Rightarrow> d
              | Inr (d', i) \<Rightarrow> save_batch_loop c b now (idx + 1) es d'))"

definition save_batch_products :: "db \<Rightarrow> string \<Rightarrow> string \<Rightarrow> batch_entry list \<Rightarrow> datetime \<Rightarrow> db" where
  "save_batch_products d category_text base_number_text entries now =
     save_batch_loop (or_default (strip category_text) general_category)
       (or_default (strip base_number_text) ''-'') now 0 entries d"

subsection \<open>Selling and restoring\<close>

text \<open>
  \<open>do_sell_with_invoice\<close> works on the product dictionary \<open>prd\<close> that was read when the
  detail screen or the quick-sell button was opened.  With a quantity above one it
  writes the dictionary back with one unit less and inserts a sold copy with quantity 0;
  otherwise it marks the row itself as sold.  The two results of \<open>copy_to_sold\<close> (a new
  path, or \<open>None\<close>) are arguments; every exception is caught and reported, the statements
  committed before it stay.
\<close>

definition sale_suffix :: string where
  "sale_suffix =
     [CHR 0x20, CHR 0x28, CHR 0xD9, CHR 0x81, CHR 0xD8, CHR 0xB1, CHR 0xD9, CHR 0x88, CHR 0xD8,
      CHR 0xB4, CHR 0x29]"

definition sale_note :: string where
  "sale_note =
     [CHR 0xD9, CHR 0x81, CHR 0xD8, CHR 0xB1, CHR 0xD9, CHR 0x88, CHR 0xD8, CHR 0xB4, CHR 0x20,
      CHR 0xD9, CHR 0x81, CHR 0xD8, CHR 0xA7, CHR 0xDA, CHR 0xA9, CHR 0xD8, CHR 0xAA, CHR 0xD9,
      CHR 0x88, CHR 0xD8, CHR 0xB1, CHR 0x3A, CHR 0x20]"

definition hhmmss :: "datetime \<Rightarrow> string" where
  "hhmmss t = zfill 2 (hour t) @ zfill 2 (minute t) @ zfill 2 (second t)"

definition str_or_None :: "string option \<Rightarrow> string" where
  "str_or_None v = (case v of None \<Rightarrow> ''None'' | Some s \<Rightarrow> s)"

definition or_empty :: "string option \<Rightarrow> string" where
  "or_empty v = (case v of None \<Rightarrow> [] | Some s \<Rightarrow> s)"

definition sold_entry :: "product \<Rightarrow> string \<Rightarrow> string \<Rightarrow> string \<Rightarrow> string option \<Rightarrow> string option \<Rightarrow> datetime \<Rightarrow> product_fields" where
  "sold_entry prd nm invoice ts sold_img sold_thumb now =
     \<lparr>product_code = Some (str_or_None (product_code prd) @ ''-S'' @ hhmmss now),
      name = Some (nm @ sale_suffix),
      category = category prd, base_number = base_number prd,
      weight = (case weight prd of None \<Rightarrow> Some 0 | Some w \<Rightarrow> Some w),
      quantity = Some 0, purity = purity prd, image_col = sold_img, thumb = sold_thumb,
      notes_col = Some (sale_note @ invoice @ '' | '' @ or_empty (notes_col prd)),
      created_at = Some ts, sold_invoice = Some invoice, sold_at = Some ts\<rparr>"

definition sell_one_of_many :: "db \<Rightarrow> product \<Rightarrow> int \<Rightarrow> string \<Rightarrow> datetime \<Rightarrow> string option \<Rightarrow> string option \<Rightarrow> db" where
  "sell_one_of_many d prd q invoice now sold_img sold_thumb =
     (case get_jalali_datetime_string now of
        Inl err \<Rightarrow>
          (if truthy (created_at prd)
           then (case update_product d (id_col prd) (prd\<lparr>quantity := Some (q - 1)\<rparr>) of
                   Inl err' \<Rightarrow> d | Inr d1 \<Rightarrow> d1)
           else d)
      | Inr ts \<Rightarrow>
          (let updated = prd\<lparr>quantity := Some (q - 1),
                              created_at := (if truthy (created_at prd) then created_at prd
                                             else Some ts)\<rparr>
           in case update_product d (id_col prd) updated of
                Inl err \<Rightarrow> d
              | Inr d1 \<Rightarrow>
                  (case name prd of
                     None \<Rightarrow> d1
                   | Some nm \<Rightarrow>
                       (case add_product d1 (sold_entry prd nm invoice ts sold_img sold_thumb now) of
                          Inl err \<Rightarrow> d1
                        | Inr (d2, new_id) \<Rightarrow> d2))))"

definition do_sell_with_invoice :: "db \<Rightarrow> product \<Rightarrow> string \<Rightarrow> datetime \<Rightarrow> string option \<Rightarrow> string option \<Rightarrow> db" where
  "do_sell_with_invoice d prd invoice_str now copied_img copied_thumb =
     (let invoice = convert_to_english_numbers (strip invoice_str)
      in if invoice = [] then d
         else
           (case quantity prd of
              Some q \<Rightarrow>
                if q > 1 then sell_one_of_many d prd q invoice now copied_img copied_thumb
                else
                  (case mark_as_sold d (PInt (id_col prd)) invoice
                          (if truthy copied_img then copied_img else image_col prd)
                          (if truthy copied_thumb then copied_thumb else thumb prd) now of
                     Inl err \<Rightarrow> d | Inr d' \<Rightarrow> d')
            | None \<Rightarrow>
                (case mark_as_sold d (PInt (id_col prd)) invoice
                        (if truthy copied_img then copied_img else image_col prd)
                        (if truthy copied_thumb then copied_thumb else thumb prd) now of
                   Inl err \<Rightarrow> d | Inr d' \<Rightarrow> d')))"

text \<open>\<open>restore_sold_product\<close> and \<open>restore_invoice_products\<close>, once confirmed: the
  UPDATE that clears \<open>sold_invoice\<close> and \<open>sold_at\<close> and sets the quantity to 1.\<close>

definition restored :: "product \<Rightarrow> product" where
  "restored r = r\<lparr>sold_invoice := None, quantity := Some 1, sold_at := None\<rparr>"

definition confirm_restore :: "db \<Rightarrow> int \<Rightarrow> db" where
  "confirm_restore d product_id =
     d\<lparr>products := map (\<lambda>r. if id_col r = product_id then restored r else r) (products d)\<rparr>"

definition restore_sold_product :: "db \<Rightarrow> int \<Rightarrow> db" where
  "restore_sold_product d product_id =
     (case find (\<lambda>p. id_col p = product_id) (get_all_products d True) of
        None \<Rightarrow> d
      | Some p \<Rightarrow> confirm_restore d product_id)"

definition restore_invoice_products :: "db \<Rightarrow> string \<Rightarrow> db" where
  "restore_invoice_products d invoice =
     fold (\<lambda>p d'. confirm_restore d' (id_col p))
          (filter (\<lambda>p. sold_invoice p = Some invoice) (get_all_products d True)) d"

subsection \<open>Automatic deletion of old sold products\<close>

text \<open>
  \<open>delete_old_sold_products\<close> selects the rows with a non-empty \<open>sold_invoice\<close> whose
  \<open>created_at\<close> text is smaller than the cutoff text.  For each it removes the two image
  files, deletes the row and removes the sidecar; an exception ends the work on that
  row only.  It returns the number of rows deleted (0 when the cutoff cannot be
  computed).
\<close>

definition old_sold :: "string \<Rightarrow> product \<Rightarrow> bool" where
  "old_sold cutoff r =
     (truthy (sold_invoice r)
      \<and> (case created_at r of None \<Rightarrow> False | Some t \<Rightarrow> text_less t cutoff))"

definition meta_file :: "string \<Rightarrow> product \<Rightarrow> string" where
  "meta_file db_path r =
     path_join (path_join (path_join (dirname db_path) ''sold'') (or_empty (sold_invoice r)))
       (''metadata_'' @ str_int (id_col r) @ ''.json'')"

definition purge_row :: "string \<Rightarrow> product \<Rightarrow> db \<times> filesystem \<times> nat \<Rightarrow> db \<times> filesystem \<times> nat" where
  "purge_row db_path r st =
     (case st of (d, fs, deleted_count) \<Rightarrow>
        (case remove_if_exists fs (image_col r) of
           Inl err \<Rightarrow> (d, fs, deleted_count)
         | Inr fs1 \<Rightarrow>
             (case remove_if_exists fs1 (thumb r) of
                Inl err \<Rightarrow> (d, fs1, deleted_count)
              | Inr fs2 \<Rightarrow>
                  (let d' = d\<lparr>products := filter (\<lambda>x. id_col x \<noteq> id_col r) (products d)\<rparr>;
                       sold_dir = path_join (path_join (dirname db_path) ''sold'')
                                    (or_empty (sold_invoice r))
                   in if path_exists fs2 sold_dir \<and> path_exists fs2 (meta_file db_path r)
                      then (case os_remove fs2 (meta_file db_path r) of
                              Inl err \<Rightarrow> (d', fs2, deleted_count + 1)
                            | Inr fs3 \<Rightarrow> (d', fs3, deleted_count + 1))
                      else (d', fs2, deleted_count + 1)))))"

definition delete_old_sold_products :: "db \<Rightarrow> filesystem \<Rightarrow> string \<Rightarrow> datetime \<Rightarrow> int \<Rightarrow> db \<times> filesystem \<times> nat" where
  "delete_old_sold_products d fs db_path now months_back =
     (case cutoff_date now months_back of
        Inl err \<Rightarrow> (d, fs, 0)
      | Inr cutoff \<Rightarrow> fold (purge_row db_path) (filter (old_sold cutoff) (products d)) (d, fs, 0))"

subsection \<open>CSV export\<close>

text \<open>
  \<open>export_all_csv\<close> hands \<open>csv.writer\<close> one list of cells for the header and one for
  each product (sold ones included, newest id first).  With no product at all it only
  shows a notice and writes no file.
\<close>

datatype cell = CNone | CInt int | CReal real | CStr string

definition str_cell :: "string option \<Rightarrow> cell" where
  "str_cell v = (case v of None \<Rightarrow> CNone | Some s \<Rightarrow> CStr s)"

definition int_cell :: "int option \<Rightarrow> cell" where
  "int_cell v = (case v of None \<Rightarrow> CNone | Some i \<Rightarrow> CInt i)"

definition real_cell :: "real option \<Rightarrow> cell" where
  "real_cell v = (case v of None \<Rightarrow> CNone | Some x \<Rightarrow> CReal x)"

definition csv_header :: "string list" where
  "csv_header =
     [''id'', ''product_code'', ''name'', ''category'', ''base_number'', ''weight'', ''quantity'',
      ''purity'', ''notes'', ''image'', ''sold_invoice'', ''created_at'', ''sold_at'']"

definition csv_row :: "product \<Rightarrow> cell list" where
  "csv_row p =
     [CInt (id_col p), str_cell (product_code p), str_cell (name p), str_cell (category p),
      str_cell (base_number p), real_cell (weight p), int_cell (quantity p),
      str_cell (purity p), str_cell (notes_col p), str_cell (image_col p),
      str_cell (sold_invoice p), str_cell (created_at p), str_cell (sold_at p)]"

definition export_all_csv :: "db \<Rightarrow> (cell list) list option" where
  "export_all_csv d =
     (let prods = get_all_products d True
      in if prods = [] then None
         else Some (map CStr csv_header # map csv_row prods))"

text \<open>Reading a row by the name of a column of the header, as a reader of the file does.\<close>

definition column :: "string \<Rightarrow> cell list \<Rightarrow> cell option" where
  "column nm row = map_of (zip csv_header row) nm"


subsection \<open>Restoring a backup\<close>

text \<open>
  \<open>_on_restore_selected\<close> walks the member names of the archive.  A member whose
  normalised name starts with \<open>..\<close> is skipped; the member named like the database file
  is extracted into the user data directory and moved onto the database file; a member
  whose name starts with \<open>images/\<close> or \<open>thumbs/\<close> is copied to the path obtained by
  joining the images or thumbs directory with the name taken relative to \<open>images\<close> or
  \<open>thumbs\<close>; every other member is ignored.  \<open>restore_member\<close> gives the paths of the
  files one member makes the function open for writing, \<open>restore_members\<close> those of
  the whole walk, which ends at the first exception of the path functions.  A write that
  the file system refuses also ends the walk of the source, so the list holds every file
  that is written and possibly more.  The directories made for a destination are its
  parents and are not listed.
\<close>

definition restore_member :: "os_path \<Rightarrow> string \<Rightarrow> string \<Rightarrow> string \<Rightarrow> py_error + string list"
  where
  "restore_member os user_data_dir cwd member =
     (let db_path = os_join os user_data_dir ''goldshop.db'';
          images_dir = os_join os user_data_dir ''images'';
          thumbs_dir = os_join os user_data_dir ''thumbs''
      in if prefix ''..'' (os_normpath os member) then Inr []
         else if member = os_basename os db_path
           then Inr [os_join os user_data_dir member, db_path]
         else if prefix ''images/'' member
           then (case os_relpath os cwd member ''images'' of
                   Inl err \<Rightarrow> Inl err
                 | Inr rel \<Rightarrow> Inr [os_join os images_dir rel])
         else if prefix ''thumbs/'' member
           then (case os_relpath os cwd member ''thumbs'' of
                   Inl err \<Rightarrow> Inl err
                 | Inr rel \<Rightarrow> Inr [os_join os thumbs_dir rel])
         else Inr [])"

fun restore_members :: "os_path \<Rightarrow> string \<Rightarrow> string \<Rightarrow> string list \<Rightarrow> string list" where
  "restore_members os user_data_dir cwd [] = []"
| "restore_members os user_data_dir cwd (m # ms) =
     (case restore_member os user_data_dir cwd m of
        Inl err \<Rightarrow> []
      | Inr ws \<Rightarrow> ws @ restore_members os user_data_dir cwd ms)"

text \<open>
  A directory is given by its components: \<open>abs_path [''data'', ''app'']\<close> is
  \<open>/data/app\<close>.  A path lies inside a directory when it is absolute and its normal form
  continues the components of the directory.
\<close>

definition clean_comp :: "string \<Rightarrow> bool" where
  "clean_comp c = (c \<noteq> [] \<and> c \<noteq> ''.'' \<and> c \<noteq> ''..'' \<and> CHR ''/'' \<notin> set c)"

definition abs_path :: "string list \<Rightarrow> string" where
  "abs_path cs = CHR ''/'' # join_sep cs"

definition resolved :: "string \<Rightarrow> string list" where
  "resolved p = filter (\<lambda>x. x \<noteq> []) (split_sep (normpath p))"

definition inside :: "string \<Rightarrow> string \<Rightarrow> bool" where
  "inside dir p = (isabs p \<and> prefix (resolved dir) (resolved p))"

text \<open>
  The name, relative to a directory \<open>d\<close> of the current directory, of a relative path
  with the normal components \<open>N\<close>, none of them \<open>..\<close>: the components after \<open>d\<close>
  when \<open>d\<close> is the first one, and one step up followed by all of them otherwise.
\<close>

definition rel_name :: "string \<Rightarrow> string list \<Rightarrow> string" where
  "rel_name d N =
     (if N \<noteq> [] \<and> hd N = d then (if tl N = [] then ''.'' else join_sep (tl N))
      else join_sep (''..'' # N))"

section \<open>The application as a state machine\<close>

text \<open>
  The state of the running application: the database, the files, and the product
  dictionary last read for the detail screen or the quick-sell button
  (\<open>current_product\<close>).  An event is one confirmed action of the user; the clock readings
  and the outcomes of file copies it depends on are carried by the event.  The directory
  \<open>user_data_dir\<close> is an argument of \<open>step\<close>.
\<close>

record app =
  app_db :: db
  app_fs :: filesystem
  current_product :: "product option"

datatype event =
    Save_batch string string "batch_entry list" datetime
  | Open_detail int
  | Quick_sell int
  | Sell string datetime "string option" "string option"
  | Mark_sold pyval string "string option" "string option" datetime
  | Restore_sold int
  | Restore_invoice string
  | Confirm_delete int
  | Auto_cleanup datetime
  | Pick_base_image string string string

fun step :: "string \<Rightarrow> app \<Rightarrow> event \<Rightarrow> app" where
  "step ud st (Save_batch c b entries now) =
     st\<lparr>app_db := save_batch_products (app_db st) c b entries now\<rparr>"
| "step ud st (Open_detail pid) =
     (case find (\<lambda>x. id_col x = pid) (get_all_products (app_db st) True) of
        None \<Rightarrow> st
      | Some prd \<Rightarrow> st\<lparr>current_product := Some prd\<rparr>)"
| "step ud st (Quick_sell pid) =
     (case find (\<lambda>x. id_col x = pid) (get_all_products (app_db st) False) of
        None \<Rightarrow> st
      | Some prd \<Rightarrow> st\<lparr>current_product := Some prd\<rparr>)"
| "step ud st (Sell invoice_str now copied_img copied_thumb) =
     (case current_product st of
        None \<Rightarrow> st
      | Some prd \<Rightarrow>
          st\<lparr>app_db := do_sell_with_invoice (app_db st) prd invoice_str now copied_img
                          copied_thumb\<rparr>)"
| "step ud st (Mark_sold pid invoice sold_image sold_thumb now) =
     (case mark_as_sold (app_db st) pid invoice sold_image sold_thumb now of
        Inl err \<Rightarrow> st
      | Inr d \<Rightarrow> st\<lparr>app_db := d\<rparr>)"
| "step ud st (Restore_sold pid) = st\<lparr>app_db := restore_sold_product (app_db st) pid\<rparr>"
| "step ud st (Restore_invoice invoice) =
     st\<lparr>app_db := restore_invoice_products (app_db st) invoice\<rparr>"
| "step ud st (Confirm_delete pid) =
     (case find (\<lambda>x. id_col x = pid) (get_all_products (app_db st) True) of
        None \<Rightarrow> st
      | Some prd \<Rightarrow>
          (case delete_product (app_db st) (app_fs st) (PInt pid) of
             Inl err \<Rightarrow> st
           | Inr (d, fs) \<Rightarrow> st\<lparr>app_db := d, app_fs := fs\<rparr>))"
| "step ud st (Auto_cleanup now) =
     (case delete_old_sold_products (app_db st) (app_fs st) (path_join ud ''goldshop.db'') now 3 of
        (d, fs, deleted_count) \<Rightarrow> st\<lparr>app_db := d, app_fs := fs\<rparr>)"
| "step ud st (Pick_base_image c b dest) =
     st\<lparr>app_db := set_base_image (app_db st) (strip c) b dest\<rparr>"

definition start :: "filesystem \<Rightarrow> app" where
  "start fs = \<lparr>app_db = create_tables, app_fs = fs, current_product = None\<rparr>"

definition run :: "string \<Rightarrow> filesystem \<Rightarrow> event list \<Rightarrow> app" where
  "run ud fs evs = foldl (step ud) (start fs) evs"

text \<open>The invariants claimed for the table \<open>products\<close>: a sold row has quantity zero; no
  two rows carry the same code (NULL apart); no two rows carry the same id.\<close>

definition sold_zero :: "'a product_fields_scheme \<Rightarrow> bool" where
  "sold_zero r = (\<not> truthy (sold_invoice r) \<or> quantity r = Some 0)"

definition codes_unique :: "product list \<Rightarrow> bool" where
  "codes_unique rows = distinct (map product_code (filter (\<lambda>r. product_code r \<noteq> None) rows))"

definition ids_unique :: "product list \<Rightarrow> bool" where
  "ids_unique rows = distinct (map id_col rows)"


section \<open>A small database used in the worked examples\<close>

definition ring_fields :: product_fields where
  "ring_fields =
     \<lparr>product_code = Some ''R1'', name = Some ''ring'', category = Some ''rings'',
      base_number = Some ''12'', weight = Some 3, quantity = Some 1, purity = Some ''18'',
      image_col = Some ''/data/images/a.jpg'', thumb = Some ''/data/thumbs/t_a.jpg'',
      notes_col = Some '''', created_at = Some ''1403/01/01 10:01'',
      sold_invoice = None, sold_at = None\<rparr>"

definition one_ring_db :: db where
  "one_ring_db =
     \<lparr>products = [make_row 1 ring_fields], bases = [], products_seq = 1, bases_seq = 0\<rparr>"

definition nowruz_1403 :: datetime where
  "nowruz_1403 =
     \<lparr>year = 2024, month = 3, day = 20, hour = 10, minute = 1, second = 0, microsecond = 0\<rparr>"

definition no_files :: filesystem where
  "no_files = \<lparr>files = [], locked = []\<rparr>"

definition ring_entry :: batch_entry where
  "ring_entry =
     \<lparr>e_name = ''ring #1'', e_weight = 3, e_purity = ''18'', e_notes = '''', e_image = '''',
      e_thumb = ''''\<rparr>"

text \<open>Two rings are added at 10:01 on 2024-03-20 (1403/01/01), and the first is sold a
  moment later under the invoice \<open>14\<close>.\<close>

definition batch_events :: "event list" where
  "batch_events = [Save_batch '' rings '' '''' [ring_entry, ring_entry] nowruz_1403]"

definition sale_events :: "event list" where
  "sale_events = batch_events @ [Quick_sell 1, Sell ''14'' nowruz_1403 None None]"

text \<open>The database after these events.\<close>

definition sold_ring_db :: db where
  "sold_ring_db =
     \<lparr>products =
        [\<lparr>product_code = Some ''X1'', name = Some ''ring #1'', category = Some ''rings'',
          base_number = Some ''-'', weight = Some 3, quantity = Some 0, purity = Some ''18'',
          image_col = Some '''', thumb = Some '''', notes_col = Some '''',
          created_at = Some ''1403/01/01 10:01'', sold_invoice = Some ''14'',
          sold_at = Some ''1403/01/01 10:01'', id_col = 1\<rparr>,
         \<lparr>product_code = Some ''X2'', name = Some ''ring #1'', category = Some ''rings'',
          base_number = Some ''-'', weight = Some 3, quantity = Some 1, purity = Some ''18'',
          image_col = Some '''', thumb = Some '''', notes_col = Some '''',
          created_at = Some ''1403/01/01 10:01'', sold_invoice = None, sold_at = None,
          id_col = 2\<rparr>],
      bases = [], products_seq = 2, bases_seq = 0\<rparr>"


section \<open>The worked example, evaluated\<close>

lemma sale_events_db:
  "app_db (run ''/data'' no_files sale_events) = sold_ring_db
   \<and> app_fs (run ''/data'' no_files sale_events) = no_files"
  by code_simp

lemma nowruz_timestamp: "get_jalali_datetime_string nowruz_1403 = Inr ''1403/01/01 10:01''"
  by code_simp


section \<open>Properties of the date converter\<close>

lemma g_d_m_lookup:
  assumes "1 \<le> gm" "gm \<le> 12"
  shows "\<exists>off. py_index g_d_m (gm - 1) = Inr off"
  using assms by (simp add: py_index_def g_d_m_def Let_def)

lemma gregorian_to_jalali_returns:
  assumes "1 \<le> gm" "gm \<le> 12"
  shows "\<exists>jy jm jd. gregorian_to_jalali gy gm gd = Inr (jy, jm, jd)"
proof -
  obtain off where "py_index g_d_m (gm - 1) = Inr off"
    using g_d_m_lookup [OF assms] by blast
  then show ?thesis
    unfolding gregorian_to_jalali_def Let_def
    by (simp only: sum.case split: if_split) blast
qed

lemma first_half_range:
  fixes d :: int
  assumes "0 \<le> d" "d < 186"
  shows "1 \<le> 1 + d div 31 \<and> 1 + d div 31 \<le> 6 \<and> 1 \<le> 1 + d mod 31 \<and> 1 + d mod 31 \<le> 31"
  using assms by auto

lemma second_half_range:
  fixes d :: int
  assumes "186 \<le> d" "d \<le> 365"
  shows "7 \<le> 7 + (d - 186) div 30 \<and> 7 + (d - 186) div 30 \<le> 12
            \<and> 1 \<le> 1 + (d - 186) mod 30 \<and> 1 + (d - 186) mod 30 \<le> 30"
  using assms by auto

lemma gregorian_to_jalali_shape:
  assumes "gregorian_to_jalali gy gm gd = Inr (jy, jm, jd)"
  shows "\<exists>d. 0 \<le> d \<and> d \<le> 365 \<and>
           (if d < 186 then jm = 1 + d div 31 \<and> jd = 1 + d mod 31
            else jm = 7 + (d - 186) div 30 \<and> jd = 1 + (d - 186) mod 30)"
proof -
  obtain off where off: "py_index g_d_m (gm - 1) = Inr off"
    using assms unfolding gregorian_to_jalali_def Let_def
    by (cases "py_index g_d_m (gm - 1)") (simp_all only: sum.case sum.distinct)
  define gy2 where "gy2 = (if gm > 2 then gy + 1 else gy)"
  define days0 where "days0 = 355666 + (365 * gy) + ((gy2 + 3) div 4) - ((gy2 + 99) div 100)
                         + ((gy2 + 399) div 400) + gd + off"
  define D where "D = (days0 mod 12053) mod 1461"
  define JY where "JY = (if D > 365 then (-1595 + (33 * (days0 div 12053)))
       + 4 * ((days0 mod 12053) div 1461) + (D - 1) div 365
     else (-1595 + (33 * (days0 div 12053))) + 4 * ((days0 mod 12053) div 1461))"
  define d where "d = (if D > 365 then (D - 1) mod 365 else D)"
  have eq: "gregorian_to_jalali gy gm gd =
     (if d < 186 then Inr (JY, 1 + (d div 31), 1 + (d mod 31))
      else Inr (JY, 7 + ((d - 186) div 30), 1 + ((d - 186) mod 30)))"
    unfolding gregorian_to_jalali_def Let_def off sum.case d_def JY_def D_def days0_def gy2_def
    by (rule refl)
  have D: "0 \<le> D" unfolding D_def by (rule pos_mod_sign) simp
  have d: "0 \<le> d" "d \<le> 365"
    using D by (auto simp: d_def intro: order_less_imp_le)
  have "if d < 186 then jm = 1 + d div 31 \<and> jd = 1 + d mod 31
            else jm = 7 + (d - 186) div 30 \<and> jd = 1 + (d - 186) mod 30"
  proof (cases "d < 186")
    case True
    with eq assms have "Inr (JY, 1 + (d div 31), 1 + (d mod 31)) = (Inr (jy, jm, jd) :: py_error + _)"
      by (simp only: if_True)
    with True show ?thesis by simp
  next
    case False
    with eq assms have "Inr (JY, 7 + ((d - 186) div 30), 1 + ((d - 186) mod 30)) = (Inr (jy, jm, jd) :: py_error + _)"
      by (simp only: if_False)
    with False show ?thesis by simp
  qed
  with d show ?thesis by blast
qed

lemma gregorian_to_jalali_range:
  assumes "gregorian_to_jalali gy gm gd = Inr (jy, jm, jd)"
  shows "1 \<le> jm \<and> jm \<le> 12 \<and> 1 \<le> jd \<and> jd \<le> 31"
proof -
  obtain d where d: "0 \<le> d" "d \<le> 365"
     and r: "if d < 186 then jm = 1 + d div 31 \<and> jd = 1 + d mod 31
            else jm = 7 + (d - 186) div 30 \<and> jd = 1 + (d - 186) mod 30"
    using gregorian_to_jalali_shape [OF assms] by blast
  show ?thesis
  proof (cases "d < 186")
    case True
    then show ?thesis using r first_half_range [of d] d by simp
  next
    case False
    then show ?thesis using r second_half_range [of d] d by simp
  qed
qed


lemma month_lookup_in_range:
  assumes "1 \<le> jm" "jm \<le> 12"
  shows "\<exists>mn. py_index months (jm - 1) = Inr mn \<and> month_name jm = Inr mn \<and> mn \<in> set months"
proof -
  have len: "length months = 12"
    by (simp add: months_def)
  have idx: "nat (jm - 1) < length months"
    using assms len by simp
  have "py_index months (jm - 1) = Inr (months ! nat (jm - 1))"
    using assms len by (simp add: py_index_def Let_def)
  moreover have "months ! nat (jm - 1) \<in> set months"
    using idx by (rule nth_mem)
  ultimately show ?thesis
    using assms by (simp add: month_name_def)
qed

text \<open>
  C1.  For every valid Gregorian date the conversion returns a Jalali date (it raises
  nothing), its result is a function of the three arguments alone (equal inputs give
  equal outputs; the model reads no clock and no file), and the reference date
  2024-03-20 is converted to 1403/01/01.
\<close>

theorem gregorian_to_jalali_deterministic_reference:
  "(valid_gregorian gy gm gd \<longrightarrow> (\<exists>jy jm jd. gregorian_to_jalali gy gm gd = Inr (jy, jm, jd)))
   \<and> (gy = gy' \<and> gm = gm' \<and> gd = gd'
        \<longrightarrow> gregorian_to_jalali gy gm gd = gregorian_to_jalali gy' gm' gd')
   \<and> gregorian_to_jalali 2024 3 20 = Inr (1403, 1, 1)"
proof (intro conjI impI)
  assume "valid_gregorian gy gm gd"
  then have "1 \<le> gm" "gm \<le> 12"
    by (simp_all add: valid_gregorian_def)
  then show "\<exists>jy jm jd. gregorian_to_jalali gy gm gd = Inr (jy, jm, jd)"
    by (rule gregorian_to_jalali_returns)
next
  assume "gy = gy' \<and> gm = gm' \<and> gd = gd'"
  then show "gregorian_to_jalali gy gm gd = gregorian_to_jalali gy' gm' gd'"
    by simp
next
  show "gregorian_to_jalali 2024 3 20 = Inr (1403, 1, 1)"
    by (simp add: gregorian_to_jalali_def py_index_def g_d_m_def Let_def)
qed

theorem gregorian_to_jalali_deterministic_reference_witness:
  "valid_gregorian 2024 3 20
   \<and> (\<exists>jy jm jd. gregorian_to_jalali 2024 3 20 = Inr (jy, jm, jd))
   \<and> gregorian_to_jalali 2024 3 20 = gregorian_to_jalali 2024 3 20
   \<and> gregorian_to_jalali 2024 3 20 = Inr (1403, 1, 1)"
proof -
  have v: "valid_gregorian 2024 3 20"
    by (simp add: valid_gregorian_def days_in_month_def)
  show ?thesis
    using v gregorian_to_jalali_deterministic_reference [of 2024 3 20 2024 3 20] by blast
qed

text \<open>
  C9.  For every Gregorian input whose month is between 1 and 12 the conversion returns
  a Jalali month between 1 and 12 and a day between 1 and 31, so that the index
  \<open>jm - 1\<close> lies inside the table of month names and
  \<open>get_jalali_date_persian_string\<close> returns a string built from one of the twelve
  names.
\<close>

theorem jalali_month_index_in_bounds:
  assumes "1 \<le> gm" "gm \<le> 12"
  shows "\<exists>jy jm jd mn.
           gregorian_to_jalali gy gm gd = Inr (jy, jm, jd)
         \<and> 1 \<le> jm \<and> jm \<le> 12 \<and> 1 \<le> jd \<and> jd \<le> 31
         \<and> 0 \<le> jm - 1 \<and> jm - 1 < int (length months)
         \<and> py_index months (jm - 1) = Inr mn \<and> mn \<in> set months
         \<and> get_jalali_date_persian_string
              \<lparr>year = gy, month = gm, day = gd, hour = h, minute = mi, second = s,
               microsecond = us\<rparr>
             = Inr (str_int jd @ '' '' @ mn @ '' '' @ str_int jy)"
proof -
  obtain jy jm jd where r: "gregorian_to_jalali gy gm gd = Inr (jy, jm, jd)"
    using gregorian_to_jalali_returns [OF assms] by blast
  have b: "1 \<le> jm \<and> jm \<le> 12 \<and> 1 \<le> jd \<and> jd \<le> 31"
    using r by (rule gregorian_to_jalali_range)
  obtain mn where mn: "py_index months (jm - 1) = Inr mn" "month_name jm = Inr mn"
      "mn \<in> set months"
    using month_lookup_in_range [of jm] b by blast
  have len: "length months = 12"
    by (simp add: months_def)
  have "get_jalali_date_persian_string
          \<lparr>year = gy, month = gm, day = gd, hour = h, minute = mi, second = s,
           microsecond = us\<rparr>
        = Inr (str_int jd @ '' '' @ mn @ '' '' @ str_int jy)"
    using r mn by (simp add: get_jalali_date_persian_string_def)
  then show ?thesis
    using r b mn len by auto
qed

theorem jalali_month_index_in_bounds_witness:
  "(1::int) \<le> 3 \<and> (3::int) \<le> 12
   \<and> (\<exists>jy jm jd mn.
           gregorian_to_jalali 2024 3 20 = Inr (jy, jm, jd)
         \<and> 1 \<le> jm \<and> jm \<le> 12 \<and> 1 \<le> jd \<and> jd \<le> 31
         \<and> 0 \<le> jm - 1 \<and> jm - 1 < int (length months)
         \<and> py_index months (jm - 1) = Inr mn \<and> mn \<in> set months
         \<and> get_jalali_date_persian_string
              \<lparr>year = 2024, month = 3, day = 20, hour = 10, minute = 1, second = 0,
               microsecond = 0\<rparr>
             = Inr (str_int jd @ '' '' @ mn @ '' '' @ str_int jy))"
proof -
  have h: "(1::int) \<le> 3" "(3::int) \<le> 12"
    by simp_all
  show ?thesis
    using h jalali_month_index_in_bounds [OF h, of 2024 20 10 1 0 0] by simp
qed

section \<open>Properties of the database helpers\<close>

text \<open>The equations that evaluate \<open>int\<close> on a given text.\<close>

lemmas int_eval = py_int_def utf8_decode.simps byte_def continuation_def low6_def
  to_ascii_def unicode_space_def decimal_value_def decimal_zeros_def int_of_ascii_def c_space_def
  int_literal_ok_def is_digit_def digits_value_def max_str_digits_def Let_def
  char_of_eq_iff take_bit_eq_mod

subsection \<open>The base-photo mapping\<close>

lemma base_hit_key: "base_hit c b r \<longleftrightarrow> base_key r = (Some c, Some b)"
  by (auto simp: base_hit_def base_key_def)

lemma distinct_keys_at_most_one:
  "distinct (map f xs) \<Longrightarrow> length (filter (\<lambda>x. f x = k) xs) \<le> 1"
proof (induction xs)
  case Nil
  then show ?case by simp
next
  case (Cons x xs)
  show ?case
  proof (cases "f x = k")
    case True
    then have "k \<notin> f ` set xs"
      using Cons.prems by auto
    then have "filter (\<lambda>x. f x = k) xs = []"
      by (auto simp: filter_empty_conv)
    with True show ?thesis by simp
  next
    case False
    with Cons show ?thesis by simp
  qed
qed

lemma bases_unique_at_most_one:
  assumes "bases_unique d"
  shows "length (filter (base_hit c b) (bases d)) \<le> 1"
proof -
  let ?nn = "\<lambda>r. b_category r \<noteq> None \<and> b_base_number r \<noteq> None"
  have "filter (base_hit c b) (bases d)
        = filter (\<lambda>r. base_key r = (Some c, Some b)) (filter ?nn (bases d))"
    by (auto simp: base_hit_def base_key_def intro: filter_cong)
  moreover have "length (filter (\<lambda>r. base_key r = (Some c, Some b)) (filter ?nn (bases d))) \<le> 1"
    using assms unfolding bases_unique_def by (rule distinct_keys_at_most_one)
  ultimately show ?thesis by simp
qed

lemma find_update_hits:
  assumes "\<And>r. P r \<Longrightarrow> P (f r)"
  shows "find P (map (\<lambda>r. if P r then f r else r) xs) = map_option f (find P xs)"
  using assms by (induction xs) auto

lemma filter_update_hits:
  assumes "\<And>r. P r \<Longrightarrow> P (f r)"
  shows "filter P (map (\<lambda>r. if P r then f r else r) xs) = map f (filter P xs)"
  using assms by (induction xs) auto

lemma find_append_split:
  "find P (xs @ ys) = (case find P xs of None \<Rightarrow> find P ys | Some x \<Rightarrow> Some x)"
  by (induction xs) auto

lemma base_hit_image_update [simp]: "base_hit c b (r\<lparr>b_image := v\<rparr>) = base_hit c b r"
  by (simp add: base_hit_def)

lemma base_key_image_update [simp]: "base_key (r\<lparr>b_image := v\<rparr>) = base_key r"
  by (simp add: base_key_def)

lemma set_base_image_hit_count:
  assumes "bases_unique d"
  shows "length (filter (base_hit c b) (bases (set_base_image d c b p))) = 1"
proof (cases "list_ex (base_hit c b) (bases d)")
  case True
  then have "filter (base_hit c b) (bases d) \<noteq> []"
    by (auto simp: list_ex_iff filter_empty_conv)
  then have "length (filter (base_hit c b) (bases d)) = 1"
    using bases_unique_at_most_one [OF assms, of c b]
    by (cases "filter (base_hit c b) (bases d)") auto
  with True show ?thesis
    by (simp add: set_base_image_def filter_update_hits)
next
  case False
  then have "filter (base_hit c b) (bases d) = []"
    by (auto simp: list_ex_iff filter_empty_conv)
  with False show ?thesis
    by (simp add: set_base_image_def Let_def base_hit_def)
qed

lemma set_base_image_lookup:
  "find (base_hit c b) (bases (set_base_image d c b p)) \<noteq> None
   \<and> (\<forall>r. find (base_hit c b) (bases (set_base_image d c b p)) = Some r \<longrightarrow> b_image r = Some p)"
proof (cases "list_ex (base_hit c b) (bases d)")
  case True
  then obtain r where "find (base_hit c b) (bases d) = Some r"
    by (cases "find (base_hit c b) (bases d)") (auto simp: list_ex_iff find_None_iff)
  with True show ?thesis
    by (simp add: set_base_image_def find_update_hits)
next
  case False
  then have "find (base_hit c b) (bases d) = None"
    by (auto simp: list_ex_iff find_None_iff)
  with False show ?thesis
    by (simp add: set_base_image_def Let_def find_append_split base_hit_def)
qed

lemma set_base_image_keeps_unique:
  assumes "bases_unique d"
  shows "bases_unique (set_base_image d c b p)"
proof (cases "list_ex (base_hit c b) (bases d)")
  case True
  let ?nn = "\<lambda>r. b_category r \<noteq> None \<and> b_base_number r \<noteq> None"
  let ?g = "\<lambda>r. if base_hit c b r then r\<lparr>b_image := Some p\<rparr> else r"
  have "map base_key (filter ?nn (map ?g xs)) = map base_key (filter ?nn xs)" for xs
    by (induction xs) auto
  then have "map base_key (filter ?nn (map ?g (bases d))) = map base_key (filter ?nn (bases d))" .
  with True assms show ?thesis
    by (simp add: set_base_image_def bases_unique_def)
next
  case False
  then have "(Some c, Some b) \<notin> base_key ` set (bases d)"
    by (auto simp: list_ex_iff base_hit_key)
  with False assms show ?thesis
    by (auto simp: set_base_image_def Let_def bases_unique_def base_key_def)
qed


text \<open>
  C7 (as amended).  On a table \<open>bases\<close> that satisfies its UNIQUE constraint, and for a
  category without leading or trailing white space (what \<open>pick_base_image\<close>, the one
  caller of \<open>set_base_image\<close>, passes), after \<open>set_base_image(c, b, p)\<close> the table has
  exactly one row for the pair \<open>(c, b)\<close>, still satisfies the constraint, and
  \<open>get_base_image(c, b)\<close> returns \<open>p\<close>.
\<close>

theorem base_image_round_trip:
  assumes "bases_unique d" "strip c = c"
  shows "length (filter (base_hit c b) (bases (set_base_image d c b p))) = 1
       \<and> get_base_image (set_base_image d c b p) c b = Some p
       \<and> bases_unique (set_base_image d c b p)"
proof -
  obtain r where r: "find (base_hit c b) (bases (set_base_image d c b p)) = Some r"
      "b_image r = Some p"
    using set_base_image_lookup [of c b d p] by auto
  then have "get_base_image (set_base_image d c b p) c b = Some p"
    using assms(2) by (simp add: get_base_image_def)
  then show ?thesis
    using set_base_image_hit_count [OF assms(1)] set_base_image_keeps_unique [OF assms(1)]
    by simp
qed

theorem base_image_round_trip_witness:
  "bases_unique create_tables \<and> strip ''ring'' = ''ring''
   \<and> length (filter (base_hit ''ring'' ''12'')
               (bases (set_base_image create_tables ''ring'' ''12'' ''/data/images/b.jpg''))) = 1
   \<and> get_base_image (set_base_image create_tables ''ring'' ''12'' ''/data/images/b.jpg'')
        ''ring'' ''12'' = Some ''/data/images/b.jpg''
   \<and> bases_unique (set_base_image create_tables ''ring'' ''12'' ''/data/images/b.jpg'')"
proof -
  have u: "bases_unique create_tables"
    by (simp add: bases_unique_def create_tables_def)
  have s: "strip ''ring'' = ''ring''"
    by code_simp
  show ?thesis
    using u s base_image_round_trip [OF u s, of "''12''" "''/data/images/b.jpg''"] by simp
qed

text \<open>
  The claim as stated, for every category, fails: \<open>get_base_image\<close> strips the category
  it is given and \<open>set_base_image\<close> does not, so a photo stored under a category with
  a leading blank is not found under that same category.
\<close>

theorem base_image_round_trip_counterexample:
  "bases_unique create_tables
   \<and> get_base_image (set_base_image create_tables '' ring'' ''12'' ''/data/images/b.jpg'')
        '' ring'' ''12'' = None"
  by code_simp

text \<open>
  C8.  For an existing product id, \<open>mark_as_sold\<close> leaves the table \<open>bases\<close> and the
  number and order of the product rows alone; in every row it keeps \<open>id\<close>,
  \<open>product_code\<close>, \<open>name\<close>, \<open>category\<close>, \<open>base_number\<close>, \<open>weight\<close>, \<open>purity\<close>,
  \<open>notes\<close> and \<open>created_at\<close>, and every row with another id is unchanged.
\<close>

theorem mark_as_sold_frame:
  assumes "py_int pid = Inr i" "list_ex (\<lambda>r. id_col r = i) (products d)"
      and "mark_as_sold d pid invoice sold_image sold_thumb now = Inr d'"
  shows "bases d' = bases d \<and> products_seq d' = products_seq d \<and> bases_seq d' = bases_seq d
       \<and> length (products d') = length (products d)
       \<and> (\<forall>k < length (products d).
             id_col (products d' ! k) = id_col (products d ! k)
           \<and> product_code (products d' ! k) = product_code (products d ! k)
           \<and> name (products d' ! k) = name (products d ! k)
           \<and> category (products d' ! k) = category (products d ! k)
           \<and> base_number (products d' ! k) = base_number (products d ! k)
           \<and> weight (products d' ! k) = weight (products d ! k)
           \<and> purity (products d' ! k) = purity (products d ! k)
           \<and> notes_col (products d' ! k) = notes_col (products d ! k)
           \<and> created_at (products d' ! k) = created_at (products d ! k)
           \<and> (id_col (products d ! k) \<noteq> i \<longrightarrow> products d' ! k = products d ! k))"
proof -
  have "d' = d \<or> (\<exists>img th ts. d' = d\<lparr>products :=
           map (\<lambda>x. if id_col x = i then sold_update invoice img th ts x else x) (products d)\<rparr>)"
    using assms(1,3)
    by (auto simp: mark_as_sold_def Let_def split: option.splits sum.splits if_splits)
  then show ?thesis
    by (auto simp: sold_update_def)
qed

theorem mark_as_sold_frame_witness:
  "py_int (PInt 1) = Inr 1 \<and> list_ex (\<lambda>r. id_col r = 1) (products one_ring_db)
   \<and> (\<exists>d'. mark_as_sold one_ring_db (PInt 1) ''1403/01/01'' None None nowruz_1403 = Inr d'
        \<and> bases d' = bases one_ring_db \<and> length (products d') = length (products one_ring_db)
        \<and> product_code (products d' ! 0) = Some ''R1''
        \<and> created_at (products d' ! 0) = Some ''1403/01/01 10:01''
        \<and> sold_invoice (products d' ! 0) = Some ''1403/01/01''
        \<and> quantity (products d' ! 0) = Some 0)"
proof -
  have p: "py_int (PInt 1) = Inr 1"
    by (simp add: py_int_def)
  have e: "list_ex (\<lambda>r. id_col r = 1) (products one_ring_db)"
    by (simp add: one_ring_db_def make_row_def)
  have ts: "get_jalali_datetime_string nowruz_1403 = Inr ''1403/01/01 10:01''"
    by (rule nowruz_timestamp)
  obtain d' where m: "mark_as_sold one_ring_db (PInt 1) ''1403/01/01'' None None nowruz_1403 = Inr d'"
    by (simp add: mark_as_sold_def py_int_def sqlite_int_ok_def one_ring_db_def make_row_def ts)
  have sold: "sold_invoice (products d' ! 0) = Some ''1403/01/01'' \<and> quantity (products d' ! 0) = Some 0"
    using m
    by (auto simp: mark_as_sold_def py_int_def sqlite_int_ok_def one_ring_db_def make_row_def ts
        truthy_def sold_update_def)
  have len: "0 < length (products one_ring_db)"
    by (simp add: one_ring_db_def)
  have "product_code (products one_ring_db ! 0) = Some ''R1''"
       "created_at (products one_ring_db ! 0) = Some ''1403/01/01 10:01''"
    by (simp_all add: one_ring_db_def make_row_def ring_fields_def)
  then show ?thesis
    using p e m sold len mark_as_sold_frame [OF p e m] by auto
qed

text \<open>
  What \<open>int\<close> accepts: a digit of any script and the white space of \<open>int\<close> around the
  literal, but not U+001C, which only \<open>str.strip()\<close> removes.
\<close>

lemma py_int_examples:
  "py_int (PStr [CHR 0xDB, CHR 0xB1]) = Inr 1"
  "py_int (PStr ([CHR 0xC2, CHR 0xA0] @ ''-4_2'' @ [CHR 0x0A])) = Inr (- 42)"
  "py_int (PStr [CHR 0xF0, CHR 0x9D, CHR 0x9F, CHR 0x99, CHR 0x37]) = Inr 17"
  "py_int (PStr [CHR 0x1C, CHR ''1'']) = Inl ValueError"
  "py_int (PStr ''1__0'') = Inl ValueError"
  "py_int (PStr [CHR 0xC2, CHR 0xB2]) = Inl ValueError"
  "py_int PNone = Inl TypeError"
  by (simp_all add: int_eval)

text \<open>
  C10.  When \<open>int(pid)\<close> raises, \<open>delete_product\<close> and \<open>mark_as_sold\<close> return with the
  database (and the files) as they were; when \<open>pid\<close> is an integer that no product row
  carries, \<open>mark_as_sold\<close> returns with the database as it was.
\<close>

theorem unparsable_pid_state_unchanged:
  "(py_int pid = Inl e \<longrightarrow>
        delete_product d fs pid = Inr (d, fs)
      \<and> mark_as_sold d pid invoice sold_image sold_thumb now = Inr d)
   \<and> (py_int pid = Inr i \<and> sqlite_int_ok i \<and> \<not> list_ex (\<lambda>r. id_col r = i) (products d) \<longrightarrow>
        mark_as_sold d pid invoice sold_image sold_thumb now = Inr d)"
proof (intro conjI impI)
  assume "py_int pid = Inl e"
  then show "delete_product d fs pid = Inr (d, fs)"
    by (simp add: delete_product_def)
next
  assume "py_int pid = Inl e"
  then show "mark_as_sold d pid invoice sold_image sold_thumb now = Inr d"
    by (simp add: mark_as_sold_def)
next
  assume a: "py_int pid = Inr i \<and> sqlite_int_ok i \<and> \<not> list_ex (\<lambda>r. id_col r = i) (products d)"
  then have "find (\<lambda>r. id_col r = i) (products d) = None"
    by (auto simp: list_ex_iff find_None_iff)
  with a show "mark_as_sold d pid invoice sold_image sold_thumb now = Inr d"
    by (simp add: mark_as_sold_def)
qed

theorem unparsable_pid_state_unchanged_witness:
  "py_int (PStr ''abc'') = Inl ValueError
   \<and> delete_product one_ring_db \<lparr>files = [''/data/images/a.jpg''], locked = []\<rparr> (PStr ''abc'')
       = Inr (one_ring_db, \<lparr>files = [''/data/images/a.jpg''], locked = []\<rparr>)
   \<and> mark_as_sold one_ring_db (PStr ''abc'') ''1403/01/01'' None None nowruz_1403 = Inr one_ring_db
   \<and> py_int (PInt 7) = Inr 7 \<and> sqlite_int_ok 7
   \<and> \<not> list_ex (\<lambda>r. id_col r = 7) (products one_ring_db)
   \<and> mark_as_sold one_ring_db (PInt 7) ''1403/01/01'' None None nowruz_1403 = Inr one_ring_db
   \<and> py_int (PStr [CHR 0x1C, CHR ''1'']) = Inl ValueError
   \<and> delete_product one_ring_db \<lparr>files = [], locked = []\<rparr> (PStr [CHR 0x1C, CHR ''1''])
       = Inr (one_ring_db, \<lparr>files = [], locked = []\<rparr>)
   \<and> mark_as_sold one_ring_db (PStr [CHR 0x1C, CHR ''1'']) ''1403/01/01'' None None nowruz_1403
       = Inr one_ring_db"
proof -
  have a: "py_int (PStr ''abc'') = Inl ValueError"
    by (simp add: int_eval)
  have b: "py_int (PInt 7) = Inr 7 \<and> sqlite_int_ok 7
           \<and> \<not> list_ex (\<lambda>r. id_col r = 7) (products one_ring_db)"
    by (simp add: py_int_def sqlite_int_ok_def one_ring_db_def make_row_def)
  have c: "py_int (PStr [CHR 0x1C, CHR ''1'']) = Inl ValueError"
    by (simp add: int_eval)
  show ?thesis
    using a b c
      unparsable_pid_state_unchanged [of "PStr ''abc''" ValueError one_ring_db
        "\<lparr>files = [''/data/images/a.jpg''], locked = []\<rparr>" "''1403/01/01''" None None
        nowruz_1403 7]
      unparsable_pid_state_unchanged [of "PInt 7" ValueError one_ring_db
        "\<lparr>files = [], locked = []\<rparr>" "''1403/01/01''" None None nowruz_1403 7]
      unparsable_pid_state_unchanged [of "PStr [CHR 0x1C, CHR ''1'']" ValueError one_ring_db
        "\<lparr>files = [], locked = []\<rparr>" "''1403/01/01''" None None nowruz_1403 7]
    by blast
qed

section \<open>Invariants of the products table\<close>

subsection \<open>Reading the table\<close>

lemma get_all_products_subset: "set (get_all_products d b) \<subseteq> set (products d)"
  by (auto simp: get_all_products_def)

lemma find_in_set: "find P xs = Some x \<Longrightarrow> x \<in> set xs \<and> P x"
  by (induction xs) (auto split: if_splits)

lemma find_get_all_products:
  assumes "find P (get_all_products d b) = Some x"
  shows "x \<in> set (products d)"
  using find_in_set [OF assms] get_all_products_subset by blast

lemma fold_max_ge_init: "(a::int) \<le> fold max xs a"
  by (induction xs arbitrary: a) (auto intro: order_trans [OF max.cobounded2])

lemma fold_max_ge_elem: "(x::int) \<in> set xs \<Longrightarrow> x \<le> fold max xs a"
proof (induction xs arbitrary: a)
  case Nil
  then show ?case by simp
next
  case (Cons y ys)
  show ?case
  proof (cases "x = y")
    case True
    have "max y a \<le> fold max ys (max y a)"
      by (rule fold_max_ge_init)
    with True show ?thesis by simp
  next
    case False
    with Cons show ?thesis by simp
  qed
qed

lemma next_rowid_fresh: "next_rowid s ids \<notin> set ids"
proof
  assume "next_rowid s ids \<in> set ids"
  then have "next_rowid s ids \<le> fold max ids 0"
    by (rule fold_max_ge_elem)
  then show False
    by (simp add: next_rowid_def)
qed

subsection \<open>A sold row has quantity zero\<close>

lemma truthy_none_if_falsy [simp]: "truthy (none_if_falsy v) = truthy v"
  by (simp add: none_if_falsy_def truthy_def)

lemma sold_zero_make_row [simp]: "sold_zero (make_row i p) = sold_zero p"
  by (simp add: sold_zero_def make_row_def)

lemma sold_zero_add_product:
  assumes "add_product d p = Inr (d', i)" "\<forall>r\<in>set (products d). sold_zero r" "sold_zero p"
  shows "\<forall>r\<in>set (products d'). sold_zero r"
  using assms
  by (auto simp: add_product_def Let_def sold_zero_def make_row_def split: if_splits)

lemma sold_zero_update_product:
  assumes "update_product d pid p = Inr d'" "\<forall>r\<in>set (products d). sold_zero r" "sold_zero p"
  shows "\<forall>r\<in>set (products d'). sold_zero r"
  using assms by (auto simp: update_product_def split: if_splits)

lemma sold_zero_sold_update [simp]: "sold_zero (sold_update invoice img th ts r)"
  by (simp add: sold_zero_def sold_update_def)

lemma sold_zero_mark_as_sold:
  assumes "mark_as_sold d pid invoice si sth now = Inr d'" "\<forall>r\<in>set (products d). sold_zero r"
  shows "\<forall>r\<in>set (products d'). sold_zero r"
  using assms
  by (auto simp: mark_as_sold_def Let_def split: sum.splits option.splits if_splits)

lemma sold_zero_restored [simp]: "sold_zero (restored r)"
  by (simp add: sold_zero_def restored_def truthy_def)

lemma sold_zero_confirm_restore:
  assumes "\<forall>r\<in>set (products d). sold_zero r"
  shows "\<forall>r\<in>set (products (confirm_restore d pid)). sold_zero r"
  using assms by (auto simp: confirm_restore_def)

lemma sold_zero_restore_sold_product:
  assumes "\<forall>r\<in>set (products d). sold_zero r"
  shows "\<forall>r\<in>set (products (restore_sold_product d pid)). sold_zero r"
  using sold_zero_confirm_restore [OF assms]
  by (simp add: restore_sold_product_def assms split: option.splits)

lemma sold_zero_restore_fold:
  assumes "\<forall>r\<in>set (products d). sold_zero r"
  shows "\<forall>r\<in>set (products (fold (\<lambda>p d'. confirm_restore d' (id_col p)) ps d)). sold_zero r"
  using assms
proof (induction ps arbitrary: d)
  case Nil
  then show ?case by simp
next
  case (Cons p ps)
  have "\<forall>r\<in>set (products (confirm_restore d (id_col p))). sold_zero r"
    using Cons.prems by (rule sold_zero_confirm_restore)
  then show ?case
    using Cons.IH by simp
qed

lemma sold_zero_restore_invoice_products:
  assumes "\<forall>r\<in>set (products d). sold_zero r"
  shows "\<forall>r\<in>set (products (restore_invoice_products d invoice)). sold_zero r"
  unfolding restore_invoice_products_def using assms by (rule sold_zero_restore_fold)

lemma delete_product_rows:
  assumes "delete_product d fs pid = Inr (d', fs')"
  shows "\<exists>P. products d' = filter P (products d)"
proof (cases "py_int pid")
  case (Inl e)
  with assms have "products d' = filter (\<lambda>r. True) (products d)"
    by (simp add: delete_product_def)
  then show ?thesis by blast
next
  case (Inr i)
  with assms have "products d' = filter (\<lambda>r. id_col r \<noteq> i) (products d)"
    by (auto simp: delete_product_def Let_def split: if_splits)
  then show ?thesis by blast
qed

lemma purge_row_rows:
  assumes "purge_row db_path r (d, fs, n) = (d', fs', n')"
  shows "\<exists>P. products d' = filter P (products d)"
proof -
  have "products d = filter (\<lambda>x. True) (products d)"
    by simp
  then have keep: "\<exists>P. products d = filter P (products d)"
    by blast
  show ?thesis
  proof (cases "remove_if_exists fs (image_col r)")
    case (Inl err)
    with assms have "d' = d"
      by (simp add: purge_row_def)
    with keep show ?thesis by simp
  next
    case first: (Inr fs1)
    show ?thesis
    proof (cases "remove_if_exists fs1 (thumb r)")
      case (Inl err)
      with first assms have "d' = d"
        by (simp add: purge_row_def)
      with keep show ?thesis by simp
    next
      case second: (Inr fs2)
      let ?d = "d\<lparr>products := filter (\<lambda>x. id_col x \<noteq> id_col r) (products d)\<rparr>"
      have "fst (purge_row db_path r (d, fs, n)) = ?d"
        by (cases "os_remove fs2 (meta_file db_path r)")
           (simp_all add: purge_row_def first second Let_def)
      with assms have "d' = ?d"
        by simp
      then have "products d' = filter (\<lambda>x. id_col x \<noteq> id_col r) (products d)"
        by simp
      then show ?thesis by blast
    qed
  qed
qed

lemma purge_fold_rows:
  assumes "fold (purge_row db_path) rs (d, fs, n) = (d', fs', n')"
  shows "\<exists>P. products d' = filter P (products d)"
  using assms
proof (induction rs arbitrary: d fs n)
  case Nil
  then have "products d' = filter (\<lambda>r. True) (products d)" by simp
  then show ?case by blast
next
  case (Cons r rs)
  obtain d1 fs1 n1 where s: "purge_row db_path r (d, fs, n) = (d1, fs1, n1)"
    by (metis prod_cases3)
  obtain P where P: "products d1 = filter P (products d)"
    using purge_row_rows [OF s] by blast
  obtain Q where Q: "products d' = filter Q (products d1)"
    using Cons.IH [of d1 fs1 n1] Cons.prems s by auto
  have "products d' = filter (\<lambda>x. P x \<and> Q x) (products d)"
    using P Q by (simp add: conj_commute)
  then show ?case by blast
qed

lemma delete_old_sold_products_rows:
  assumes "delete_old_sold_products d fs db_path now m = (d', fs', n')"
  shows "\<exists>P. products d' = filter P (products d)"
proof (cases "cutoff_date now m")
  case (Inl e)
  with assms have "products d' = filter (\<lambda>r. True) (products d)"
    by (simp add: delete_old_sold_products_def)
  then show ?thesis by blast
next
  case (Inr cutoff)
  with assms show ?thesis
    by (auto simp: delete_old_sold_products_def intro: purge_fold_rows)
qed

lemma sold_zero_save_batch_loop:
  assumes "\<forall>r\<in>set (products d). sold_zero r"
  shows "\<forall>r\<in>set (products (save_batch_loop c b now idx es d)). sold_zero r"
  using assms
proof (induction es arbitrary: d idx)
  case Nil
  then show ?case by simp
next
  case (Cons e es)
  show ?case
  proof (cases "get_jalali_datetime_string now")
    case (Inl err)
    with Cons.prems show ?thesis by (simp add: Let_def)
  next
    case (Inr ts)
    let ?p = "batch_product (prefix_of_category c
                @ str_nat (find_free_code d (prefix_of_category c) (get_next_seq_for_category d c)))
                c b ts idx e"
    have sz: "sold_zero ?p"
      by (simp add: sold_zero_def batch_product_def truthy_def)
    show ?thesis
    proof (cases "add_product d ?p")
      case (Inl err)
      with Inr Cons.prems show ?thesis by (simp add: Let_def)
    next
      case added: (Inr res)
      obtain d' i where res: "res = (d', i)" by (cases res)
      have "\<forall>r\<in>set (products d'). sold_zero r"
        using sold_zero_add_product [OF _ Cons.prems sz] added res by simp
      then have "\<forall>r\<in>set (products (save_batch_loop c b now (idx + 1) es d')). sold_zero r"
        by (rule Cons.IH)
      with Inr added res show ?thesis by (simp add: Let_def)
    qed
  qed
qed

lemma sold_zero_sell_one_of_many:
  assumes "\<forall>r\<in>set (products d). sold_zero r" "quantity prd = Some q" "q > 1" "sold_zero prd"
  shows "\<forall>r\<in>set (products (sell_one_of_many d prd q invoice now ci ct)). sold_zero r"
proof -
  have unsold: "\<not> truthy (sold_invoice prd)"
    using assms(2,3,4) by (auto simp: sold_zero_def)
  have upd: "sold_zero (prd\<lparr>quantity := Some (q - 1), created_at := v\<rparr>)" for v
    using unsold by (simp add: sold_zero_def)
  have upd': "sold_zero (prd\<lparr>quantity := Some (q - 1)\<rparr>)"
    using unsold by (simp add: sold_zero_def)
  have entry: "sold_zero (sold_entry prd nm invoice ts ci ct now)" for nm ts
    by (simp add: sold_zero_def sold_entry_def)
  show ?thesis
  proof (cases "get_jalali_datetime_string now")
    case (Inl err)
    then show ?thesis
      using assms(1) sold_zero_update_product [OF _ assms(1) upd']
      by (auto simp: sell_one_of_many_def split: sum.splits)
  next
    case (Inr ts)
    let ?u = "prd\<lparr>quantity := Some (q - 1),
                   created_at := (if truthy (created_at prd) then created_at prd else Some ts)\<rparr>"
    show ?thesis
    proof (cases "update_product d (id_col prd) ?u")
      case (Inl err)
      with Inr assms(1) show ?thesis
        by (simp add: sell_one_of_many_def Let_def)
    next
      case updated: (Inr d1)
      have d1: "\<forall>r\<in>set (products d1). sold_zero r"
        using sold_zero_update_product [OF updated assms(1) upd] .
      show ?thesis
      proof (cases "name prd")
        case None
        with Inr updated d1 show ?thesis
          by (simp add: sell_one_of_many_def Let_def)
      next
        case (Some nm)
        show ?thesis
        proof (cases "add_product d1 (sold_entry prd nm invoice ts ci ct now)")
          case (Inl err)
          with Inr updated Some d1 show ?thesis
            by (simp add: sell_one_of_many_def Let_def)
        next
          case added: (Inr res)
          obtain d2 i where res: "res = (d2, i)" by (cases res)
          have "\<forall>r\<in>set (products d2). sold_zero r"
            using sold_zero_add_product [OF _ d1 entry] added res by simp
          with Inr updated Some added res show ?thesis
            by (simp add: sell_one_of_many_def Let_def)
        qed
      qed
    qed
  qed
qed

lemma sold_zero_do_sell_with_invoice:
  assumes "\<forall>r\<in>set (products d). sold_zero r" "sold_zero prd"
  shows "\<forall>r\<in>set (products (do_sell_with_invoice d prd invoice_str now ci ct)). sold_zero r"
proof -
  have marked: "\<forall>r\<in>set (products (case mark_as_sold d pid inv a b now of
                                      Inl err \<Rightarrow> d | Inr d' \<Rightarrow> d')). sold_zero r" for pid inv a b
    using assms(1) sold_zero_mark_as_sold [OF _ assms(1)]
    by (cases "mark_as_sold d pid inv a b now") auto
  show ?thesis
  proof (cases "quantity prd")
    case None
    then show ?thesis
      using assms(1) marked by (simp add: do_sell_with_invoice_def Let_def)
  next
    case (Some q)
    then show ?thesis
      using assms(1) marked sold_zero_sell_one_of_many [OF assms(1) Some _ assms(2)]
      by (simp add: do_sell_with_invoice_def Let_def)
  qed
qed

definition sold_rows_zero :: "app \<Rightarrow> bool" where
  "sold_rows_zero st =
     ((\<forall>r\<in>set (products (app_db st)). sold_zero r)
      \<and> (\<forall>p. current_product st = Some p \<longrightarrow> sold_zero p))"

lemma sold_rows_zero_step:
  assumes "sold_rows_zero st"
  shows "sold_rows_zero (step ud st ev)"
proof -
  have rows: "\<forall>r\<in>set (products (app_db st)). sold_zero r"
    and cur: "\<And>p. current_product st = Some p \<Longrightarrow> sold_zero p"
    using assms by (auto simp: sold_rows_zero_def)
  show ?thesis
  proof (cases ev)
    case (Save_batch c b entries now)
    then show ?thesis
      using rows cur sold_zero_save_batch_loop [OF rows]
      by (simp add: sold_rows_zero_def save_batch_products_def)
  next
    case (Open_detail pid)
    show ?thesis
    proof (cases "find (\<lambda>x. id_col x = pid) (get_all_products (app_db st) True)")
      case None
      with Open_detail assms show ?thesis by simp
    next
      case (Some prd)
      then have "sold_zero prd"
        using rows find_get_all_products by blast
      with Open_detail Some rows show ?thesis
        by (simp add: sold_rows_zero_def)
    qed
  next
    case (Quick_sell pid)
    show ?thesis
    proof (cases "find (\<lambda>x. id_col x = pid) (get_all_products (app_db st) False)")
      case None
      with Quick_sell assms show ?thesis by simp
    next
      case (Some prd)
      then have "sold_zero prd"
        using rows find_get_all_products by blast
      with Quick_sell Some rows show ?thesis
        by (simp add: sold_rows_zero_def)
    qed
  next
    case (Sell invoice_str now ci ct)
    show ?thesis
    proof (cases "current_product st")
      case None
      with Sell assms show ?thesis by simp
    next
      case (Some prd)
      then show ?thesis
        using Sell cur sold_zero_do_sell_with_invoice [OF rows cur [OF Some]]
        by (simp add: sold_rows_zero_def)
    qed
  next
    case (Mark_sold pid invoice si sth now)
    show ?thesis
    proof (cases "mark_as_sold (app_db st) pid invoice si sth now")
      case (Inl err)
      with Mark_sold assms show ?thesis by simp
    next
      case (Inr d)
      then show ?thesis
        using Mark_sold cur sold_zero_mark_as_sold [OF Inr rows]
        by (simp add: sold_rows_zero_def)
    qed
  next
    case (Restore_sold pid)
    then show ?thesis
      using cur sold_zero_restore_sold_product [OF rows]
      by (simp add: sold_rows_zero_def)
  next
    case (Restore_invoice invoice)
    then show ?thesis
      using cur sold_zero_restore_invoice_products [OF rows]
      by (simp add: sold_rows_zero_def)
  next
    case (Confirm_delete pid)
    show ?thesis
    proof (cases "find (\<lambda>x. id_col x = pid) (get_all_products (app_db st) True)")
      case None
      with Confirm_delete assms show ?thesis by simp
    next
      case found: (Some prd)
      show ?thesis
      proof (cases "delete_product (app_db st) (app_fs st) (PInt pid)")
        case (Inl err)
        with Confirm_delete found assms show ?thesis by simp
      next
        case (Inr res)
        obtain d fs where res: "res = (d, fs)" by (cases res)
        obtain P where "products d = filter P (products (app_db st))"
          using delete_product_rows Inr res by blast
        then show ?thesis
          using Confirm_delete found Inr res rows cur
          by (simp add: sold_rows_zero_def)
      qed
    qed
  next
    case (Auto_cleanup now)
    obtain d fs n where
      r: "delete_old_sold_products (app_db st) (app_fs st) (path_join ud ''goldshop.db'') now 3
            = (d, fs, n)"
      by (metis prod_cases3)
    obtain P where "products d = filter P (products (app_db st))"
      using delete_old_sold_products_rows [OF r] by blast
    then show ?thesis
      using Auto_cleanup r rows cur by (simp add: sold_rows_zero_def)
  next
    case (Pick_base_image c b dest)
    then show ?thesis
      using rows cur by (simp add: sold_rows_zero_def set_base_image_def Let_def)
  qed
qed

lemma foldl_invariant:
  assumes "\<And>st ev. I st \<Longrightarrow> I (f st ev)" "I s"
  shows "I (foldl f s evs)"
  using assms(2) by (induction evs arbitrary: s) (auto intro: assms(1))

lemma sold_rows_zero_run: "sold_rows_zero (run ud fs evs)"
  unfolding run_def
proof (rule foldl_invariant)
  show "sold_rows_zero (start fs)"
    by (simp add: sold_rows_zero_def start_def create_tables_def)
qed (rule sold_rows_zero_step)


subsection \<open>Codes and ids are unique\<close>

lemma codes_unique_Nil [simp]: "codes_unique []"
  by (simp add: codes_unique_def)

lemma codes_unique_Cons:
  "codes_unique (r # rs) \<longleftrightarrow>
     codes_unique rs \<and> (product_code r \<noteq> None \<longrightarrow> product_code r \<notin> product_code ` set rs)"
proof (cases "product_code r")
  case None
  then show ?thesis by (simp add: codes_unique_def)
next
  case (Some c)
  have "Some c \<in> product_code ` {x \<in> set rs. product_code x \<noteq> None}
        \<longleftrightarrow> Some c \<in> product_code ` set rs"
  proof
    assume "Some c \<in> product_code ` {x \<in> set rs. product_code x \<noteq> None}"
    then obtain x where x: "x \<in> set rs" "product_code x = Some c"
      by auto
    show "Some c \<in> product_code ` set rs"
      by (rule image_eqI [where x = x]) (simp_all add: x)
  next
    assume "Some c \<in> product_code ` set rs"
    then obtain x where x: "x \<in> set rs" "product_code x = Some c"
      by auto
    show "Some c \<in> product_code ` {x \<in> set rs. product_code x \<noteq> None}"
      by (rule image_eqI [where x = x]) (simp_all add: x)
  qed
  with Some show ?thesis
    by (auto simp: codes_unique_def)
qed

lemma code_taken_iff: "code_taken rows c \<longleftrightarrow> c \<noteq> None \<and> c \<in> product_code ` set rows"
  by (auto simp: code_taken_def list_ex_iff)

lemma codes_unique_snoc:
  assumes "codes_unique rows" "\<not> code_taken rows (product_code r)"
  shows "codes_unique (rows @ [r])"
  using assms
proof (induction rows)
  case Nil
  then show ?case by (simp add: codes_unique_Cons)
next
  case (Cons x xs)
  then show ?case
    by (auto simp: codes_unique_Cons code_taken_iff)
qed

lemma codes_unique_filter:
  assumes "codes_unique rows"
  shows "codes_unique (filter P rows)"
  using assms by (induction rows) (auto simp: codes_unique_Cons)

lemma codes_unique_map_same:
  assumes "\<And>r. product_code (h r) = product_code r"
  shows "codes_unique (map h rows) = codes_unique rows"
proof (induction rows)
  case Nil
  then show ?case by simp
next
  case (Cons x xs)
  have "product_code ` set (map h xs) = product_code ` set xs"
    using assms by (auto simp: image_iff)
  with Cons assms show ?case
    by (simp add: codes_unique_Cons)
qed

lemma map_replace_absent:
  "pid \<notin> id_col ` set xs \<Longrightarrow> map (\<lambda>r. if id_col r = pid then new else r) xs = xs"
  by (induction xs) auto

lemma filter_other_absent:
  "pid \<notin> id_col ` set xs \<Longrightarrow> filter (\<lambda>r. id_col r \<noteq> pid) xs = xs"
  by (induction xs) auto

lemma codes_unique_replace:
  assumes "distinct (map id_col rows)" "codes_unique rows"
      and "\<not> code_taken (filter (\<lambda>r. id_col r \<noteq> pid) rows) (product_code new)"
  shows "codes_unique (map (\<lambda>r. if id_col r = pid then new else r) rows)"
  using assms
proof (induction rows)
  case Nil
  then show ?case by simp
next
  case (Cons x xs)
  let ?g = "\<lambda>r. if id_col r = pid then new else r"
  have tail: "codes_unique xs" "distinct (map id_col xs)"
    using Cons.prems by (simp_all add: codes_unique_Cons)
  show ?case
  proof (cases "id_col x = pid")
    case True
    then have "pid \<notin> id_col ` set xs"
      using Cons.prems(1) by auto
    then have same: "map ?g xs = xs" "filter (\<lambda>r. id_col r \<noteq> pid) xs = xs"
      by (simp_all add: map_replace_absent filter_other_absent)
    have "\<not> code_taken xs (product_code new)"
      using Cons.prems(3) True same by simp
    with True same tail show ?thesis
      by (auto simp: codes_unique_Cons code_taken_iff)
  next
    case False
    have nt: "\<not> code_taken (filter (\<lambda>r. id_col r \<noteq> pid) xs) (product_code new)"
      and differ: "product_code x \<noteq> None \<longrightarrow> product_code new \<noteq> product_code x"
      using Cons.prems(3) False by (auto simp: code_taken_iff)
    have ih: "codes_unique (map ?g xs)"
      using Cons.IH [OF tail(2) tail(1) nt] .
    have sub: "product_code ` set (map ?g xs) \<subseteq> insert (product_code new) (product_code ` set xs)"
      by auto
    have fresh: "product_code x \<noteq> None \<longrightarrow> product_code x \<notin> product_code ` set xs"
      using Cons.prems(2) by (simp add: codes_unique_Cons)
    have "product_code x \<noteq> None \<longrightarrow> product_code x \<notin> product_code ` set (map ?g xs)"
    proof (intro impI notI)
      assume nn: "product_code x \<noteq> None"
        and mem: "product_code x \<in> product_code ` set (map ?g xs)"
      from mem sub have "product_code x \<in> insert (product_code new) (product_code ` set xs)"
        by blast
      then have "product_code x = product_code new \<or> product_code x \<in> product_code ` set xs"
        by blast
      with nn differ fresh show False
        by auto
    qed
    then show ?thesis
      using False ih by (simp add: codes_unique_Cons)
  qed
qed

definition table_ok :: "db \<Rightarrow> bool" where
  "table_ok d = (ids_unique (products d) \<and> codes_unique (products d))"

lemma table_ok_filter:
  assumes "table_ok d" "products d' = filter P (products d)"
  shows "table_ok d'"
  using assms by (simp add: table_ok_def ids_unique_def codes_unique_filter distinct_map_filter)

lemma product_code_make_row [simp]: "product_code (make_row i p) = product_code p"
  by (simp add: make_row_def)

lemma id_col_make_row [simp]: "id_col (make_row i p) = i"
  by (simp add: make_row_def)

lemma table_ok_add_product:
  assumes "add_product d p = Inr (d', i)" "table_ok d"
  shows "table_ok d'"
proof -
  let ?i = "next_rowid (products_seq d) (map id_col (products d))"
  let ?row = "(make_row ?i p)\<lparr>sold_invoice := none_if_falsy (sold_invoice p),
                                sold_at := none_if_falsy (sold_at p)\<rparr>"
  have free: "\<not> code_taken (products d) (product_code p)"
    and d': "products d' = products d @ [?row]"
    using assms(1) by (auto simp: add_product_def Let_def split: if_splits)
  have "?i \<notin> set (map id_col (products d))"
    by (rule next_rowid_fresh)
  then have ids: "ids_unique (products d')"
    using assms(2) d' by (simp add: table_ok_def ids_unique_def)
  have "codes_unique (products d @ [?row])"
    using assms(2) free by (intro codes_unique_snoc) (simp_all add: table_ok_def)
  with ids d' show ?thesis
    by (simp add: table_ok_def)
qed

lemma ids_replace:
  assumes "id_col new = pid"
  shows "map id_col (map (\<lambda>r. if id_col r = pid then new else r) rows) = map id_col rows"
  using assms by (induction rows) auto

lemma table_ok_update_product:
  assumes "update_product d pid p = Inr d'" "table_ok d"
  shows "table_ok d'"
proof (cases "list_ex (\<lambda>r. id_col r = pid) (products d)")
  case False
  then have "pid \<notin> id_col ` set (products d)"
    by (auto simp: list_ex_iff)
  then have "map (\<lambda>r. if id_col r = pid then make_row pid p else r) (products d) = products d"
    by (rule map_replace_absent)
  with assms False show ?thesis
    by (simp add: update_product_def table_ok_def)
next
  case True
  let ?g = "\<lambda>r. if id_col r = pid then make_row pid p else r"
  have free: "\<not> code_taken (filter (\<lambda>r. id_col r \<noteq> pid) (products d)) (product_code (make_row pid p))"
    and d': "products d' = map ?g (products d)"
    using assms(1) True by (auto simp: update_product_def split: if_splits)
  have codes: "codes_unique (products d')"
    unfolding d' using assms(2) free
    by (intro codes_unique_replace) (simp_all add: table_ok_def ids_unique_def)
  have ids: "map id_col (products d') = map id_col (products d)"
    unfolding d' by (rule ids_replace) simp
  have "distinct (map id_col (products d))"
    using assms(2) by (simp add: table_ok_def ids_unique_def)
  then have "ids_unique (products d')"
    unfolding ids_unique_def ids .
  with codes show ?thesis
    by (simp add: table_ok_def)
qed

lemma table_ok_map_same:
  assumes "table_ok d" "products d' = map h (products d)"
      and "\<And>r. product_code (h r) = product_code r" "\<And>r. id_col (h r) = id_col r"
  shows "table_ok d'"
proof -
  have "map id_col (map h xs) = map id_col xs" for xs
    using assms(4) by (induction xs) simp_all
  then have ids: "map id_col (products d') = map id_col (products d)"
    unfolding assms(2) .
  have "distinct (map id_col (products d))"
    using assms(1) by (simp add: table_ok_def ids_unique_def)
  then have i: "ids_unique (products d')"
    unfolding ids_unique_def ids .
  have "codes_unique (map h (products d))"
    using assms(1) codes_unique_map_same [of h, OF assms(3)] by (simp add: table_ok_def)
  then have "codes_unique (products d')"
    unfolding assms(2) .
  with i show ?thesis
    by (simp add: table_ok_def)
qed

lemma mark_as_sold_cases:
  assumes "mark_as_sold d pid invoice si sth now = Inr d'"
  shows "d' = d \<or> (\<exists>i img th ts. d' = d\<lparr>products :=
           map (\<lambda>x. if id_col x = i then sold_update invoice img th ts x else x) (products d)\<rparr>)"
  using assms
  by (auto simp: mark_as_sold_def Let_def split: option.splits sum.splits if_splits)

lemma table_ok_mark_as_sold:
  assumes "mark_as_sold d pid invoice si sth now = Inr d'" "table_ok d"
  shows "table_ok d'"
  using mark_as_sold_cases [OF assms(1)]
proof
  assume "d' = d"
  with assms(2) show ?thesis by simp
next
  assume "\<exists>i img th ts. d' = d\<lparr>products :=
           map (\<lambda>x. if id_col x = i then sold_update invoice img th ts x else x) (products d)\<rparr>"
  then obtain i img th ts where "d' = d\<lparr>products :=
           map (\<lambda>x. if id_col x = i then sold_update invoice img th ts x else x) (products d)\<rparr>"
    by blast
  then have eq: "products d' =
           map (\<lambda>x. if id_col x = i then sold_update invoice img th ts x else x) (products d)"
    by simp
  show ?thesis
    by (rule table_ok_map_same [OF assms(2) eq]) (simp_all add: sold_update_def)
qed

lemma table_ok_confirm_restore:
  assumes "table_ok d"
  shows "table_ok (confirm_restore d pid)"
  using assms
  by (rule table_ok_map_same [where h = "\<lambda>r. if id_col r = pid then restored r else r"])
     (simp_all add: confirm_restore_def restored_def)

lemma table_ok_restore_sold_product:
  assumes "table_ok d"
  shows "table_ok (restore_sold_product d pid)"
  using assms table_ok_confirm_restore [OF assms]
  by (simp add: restore_sold_product_def split: option.splits)

lemma table_ok_restore_fold:
  assumes "table_ok d"
  shows "table_ok (fold (\<lambda>p d'. confirm_restore d' (id_col p)) ps d)"
  using assms by (induction ps arbitrary: d) (simp_all add: table_ok_confirm_restore)

lemma table_ok_restore_invoice_products:
  assumes "table_ok d"
  shows "table_ok (restore_invoice_products d invoice)"
  unfolding restore_invoice_products_def using assms by (rule table_ok_restore_fold)

text \<open>The loop of \<open>save_batch_products\<close> returns a number whose code no row carries, so
  the INSERT that follows never violates the UNIQUE constraint.\<close>

lemma find_free_code_free:
  "get_product_by_code d (pfx @ str_nat (find_free_code d pfx s)) = None"
  by (induction d pfx s rule: find_free_code.induct) (simp add: find_free_code.simps)

lemma find_free_code_ge: "s \<le> find_free_code d pfx s"
proof (induction d pfx s rule: find_free_code.induct)
  case (1 d pfx s)
  show ?case
  proof (cases "get_product_by_code d (pfx @ str_nat s) \<noteq> None")
    case True
    then have "s + 1 \<le> find_free_code d pfx (s + 1)"
      by (rule "1.IH")
    with True show ?thesis
      by (simp add: find_free_code.simps [of d pfx s])
  next
    case False
    then show ?thesis
      by (simp add: find_free_code.simps [of d pfx s])
  qed
qed

lemma free_code_not_taken:
  assumes "get_product_by_code d code = None"
  shows "\<not> code_taken (products d) (Some code)"
  using assms by (auto simp: get_product_by_code_def find_None_iff code_taken_iff)

lemma table_ok_save_batch_loop:
  assumes "table_ok d"
  shows "table_ok (save_batch_loop c b now idx es d)"
  using assms
proof (induction es arbitrary: d idx)
  case Nil
  then show ?case by simp
next
  case (Cons e es)
  show ?case
  proof (cases "get_jalali_datetime_string now")
    case (Inl err)
    with Cons.prems show ?thesis by (simp add: Let_def)
  next
    case (Inr ts)
    let ?p = "batch_product (prefix_of_category c
                @ str_nat (find_free_code d (prefix_of_category c) (get_next_seq_for_category d c)))
                c b ts idx e"
    show ?thesis
    proof (cases "add_product d ?p")
      case (Inl err)
      with Inr Cons.prems show ?thesis by (simp add: Let_def)
    next
      case added: (Inr res)
      obtain d' i where res: "res = (d', i)" by (cases res)
      have "table_ok d'"
        using table_ok_add_product [OF _ Cons.prems] added res by simp
      then have "table_ok (save_batch_loop c b now (idx + 1) es d')"
        by (rule Cons.IH)
      with Inr added res show ?thesis by (simp add: Let_def)
    qed
  qed
qed

lemma table_ok_sell_one_of_many:
  assumes "table_ok d"
  shows "table_ok (sell_one_of_many d prd q invoice now ci ct)"
proof (cases "get_jalali_datetime_string now")
  case (Inl err)
  then show ?thesis
    using assms table_ok_update_product [OF _ assms]
    by (auto simp: sell_one_of_many_def split: sum.splits)
next
  case (Inr ts)
  let ?u = "prd\<lparr>quantity := Some (q - 1),
                 created_at := (if truthy (created_at prd) then created_at prd else Some ts)\<rparr>"
  show ?thesis
  proof (cases "update_product d (id_col prd) ?u")
    case (Inl err)
    with Inr assms show ?thesis
      by (simp add: sell_one_of_many_def Let_def)
  next
    case updated: (Inr d1)
    have d1: "table_ok d1"
      using table_ok_update_product [OF updated assms] .
    show ?thesis
    proof (cases "name prd")
      case None
      with Inr updated d1 show ?thesis
        by (simp add: sell_one_of_many_def Let_def)
    next
      case (Some nm)
      show ?thesis
      proof (cases "add_product d1 (sold_entry prd nm invoice ts ci ct now)")
        case (Inl err)
        with Inr updated Some d1 show ?thesis
          by (simp add: sell_one_of_many_def Let_def)
      next
        case added: (Inr res)
        obtain d2 i where res: "res = (d2, i)" by (cases res)
        have "table_ok d2"
          using table_ok_add_product [OF _ d1] added res by simp
        with Inr updated Some added res show ?thesis
          by (simp add: sell_one_of_many_def Let_def)
      qed
    qed
  qed
qed

lemma table_ok_do_sell_with_invoice:
  assumes "table_ok d"
  shows "table_ok (do_sell_with_invoice d prd invoice_str now ci ct)"
proof -
  have marked: "table_ok (case mark_as_sold d pid inv a b now of
                            Inl err \<Rightarrow> d | Inr d' \<Rightarrow> d')" for pid inv a b
    using assms table_ok_mark_as_sold [OF _ assms]
    by (cases "mark_as_sold d pid inv a b now") auto
  show ?thesis
    using assms marked table_ok_sell_one_of_many [OF assms]
    by (cases "quantity prd") (simp_all add: do_sell_with_invoice_def Let_def)
qed

lemma table_ok_step:
  assumes "table_ok (app_db st)"
  shows "table_ok (app_db (step ud st ev))"
proof (cases ev)
  case (Save_batch c b entries now)
  then show ?thesis
    using table_ok_save_batch_loop [OF assms] by (simp add: save_batch_products_def)
next
  case (Open_detail pid)
  then show ?thesis
    using assms by (simp split: option.splits)
next
  case (Quick_sell pid)
  then show ?thesis
    using assms by (simp split: option.splits)
next
  case (Sell invoice_str now ci ct)
  then show ?thesis
    using assms table_ok_do_sell_with_invoice [OF assms] by (simp split: option.splits)
next
  case (Mark_sold pid invoice si sth now)
  then show ?thesis
    using assms table_ok_mark_as_sold [OF _ assms]
    by (cases "mark_as_sold (app_db st) pid invoice si sth now") simp_all
next
  case (Restore_sold pid)
  then show ?thesis
    using table_ok_restore_sold_product [OF assms] by simp
next
  case (Restore_invoice invoice)
  then show ?thesis
    using table_ok_restore_invoice_products [OF assms] by simp
next
  case (Confirm_delete pid)
  show ?thesis
  proof (cases "find (\<lambda>x. id_col x = pid) (get_all_products (app_db st) True)")
    case None
    with Confirm_delete assms show ?thesis by simp
  next
    case found: (Some prd)
    show ?thesis
    proof (cases "delete_product (app_db st) (app_fs st) (PInt pid)")
      case (Inl err)
      with Confirm_delete found assms show ?thesis by simp
    next
      case (Inr res)
      obtain d fs where res: "res = (d, fs)" by (cases res)
      obtain P where "products d = filter P (products (app_db st))"
        using delete_product_rows Inr res by blast
      then have "table_ok d"
        by (rule table_ok_filter [OF assms])
      with Confirm_delete found Inr res show ?thesis by simp
    qed
  qed
next
  case (Auto_cleanup now)
  obtain d fs n where
    r: "delete_old_sold_products (app_db st) (app_fs st) (path_join ud ''goldshop.db'') now 3
          = (d, fs, n)"
    by (metis prod_cases3)
  obtain P where "products d = filter P (products (app_db st))"
    using delete_old_sold_products_rows [OF r] by blast
  then have "table_ok d"
    by (rule table_ok_filter [OF assms])
  with Auto_cleanup r show ?thesis by simp
next
  case (Pick_base_image c b dest)
  then show ?thesis
    using assms by (simp add: set_base_image_def Let_def table_ok_def)
qed

lemma table_ok_run: "table_ok (app_db (run ud fs evs))"
  unfolding run_def
proof (rule foldl_invariant [where I = "\<lambda>st. table_ok (app_db st)"])
  show "table_ok (app_db (start fs))"
    by (simp add: table_ok_def start_def create_tables_def ids_unique_def)
qed (rule table_ok_step)

lemma codes_unique_nth:
  assumes "codes_unique rows" "i < j" "j < length rows"
      and "product_code (rows ! i) = product_code (rows ! j)"
  shows "product_code (rows ! i) = None"
  using assms
proof (induction rows arbitrary: i j)
  case Nil
  then show ?case by simp
next
  case (Cons x xs)
  show ?case
  proof (cases i)
    case 0
    then obtain j' where j: "j = Suc j'" "j' < length xs"
      using Cons.prems(2,3) by (cases j) auto
    then have "product_code (xs ! j') \<in> product_code ` set xs"
      by simp
    with 0 j Cons.prems(1,4) show ?thesis
      by (auto simp: codes_unique_Cons)
  next
    case (Suc i')
    then obtain j' where j: "j = Suc j'" "i' < j'" "j' < length xs"
      using Cons.prems(2,3) by (cases j) auto
    with Suc Cons.prems Cons.IH [of i' j'] show ?thesis
      by (simp add: codes_unique_Cons)
  qed
qed


text \<open>
  C3.  In every state that the application reaches from the empty database by adding
  batches of products, selling (through the sell flow or a direct \<open>mark_as_sold\<close>),
  restoring, deleting, cleaning up and storing base photos, every product row with a
  non-empty \<open>sold_invoice\<close> has quantity 0; and the rows that \<open>mark_as_sold\<close> marks get
  the invoice, quantity 0 and the timestamp of the sale.
\<close>

theorem sold_rows_have_zero_quantity:
  "(\<forall>r\<in>set (products (app_db (run ud fs evs))).
       truthy (sold_invoice r) \<longrightarrow> quantity r = Some 0)
   \<and> (py_int pid = Inr i \<and> get_jalali_datetime_string now = Inr ts
        \<and> mark_as_sold d pid invoice si sth now = Inr d'
      \<longrightarrow> (\<forall>r\<in>set (products d'). id_col r = i \<longrightarrow>
             sold_invoice r = Some invoice \<and> quantity r = Some 0 \<and> sold_at r = Some ts))"
proof (intro conjI impI)
  show "\<forall>r\<in>set (products (app_db (run ud fs evs))).
          truthy (sold_invoice r) \<longrightarrow> quantity r = Some 0"
    using sold_rows_zero_run [of ud fs evs]
    by (auto simp: sold_rows_zero_def sold_zero_def)
next
  assume "py_int pid = Inr i \<and> get_jalali_datetime_string now = Inr ts
             \<and> mark_as_sold d pid invoice si sth now = Inr d'"
  then have a: "py_int pid = Inr i" "get_jalali_datetime_string now = Inr ts"
      "mark_as_sold d pid invoice si sth now = Inr d'"
    by simp_all
  show "\<forall>r\<in>set (products d'). id_col r = i \<longrightarrow>
          sold_invoice r = Some invoice \<and> quantity r = Some 0 \<and> sold_at r = Some ts"
  proof (cases "find (\<lambda>r. id_col r = i) (products d)")
    case None
    then have "\<forall>r\<in>set (products d). id_col r \<noteq> i"
      by (simp add: find_None_iff)
    moreover have "d' = d"
      using a None by (auto simp: mark_as_sold_def split: if_splits)
    ultimately show ?thesis by simp
  next
    case (Some row)
    define img where "img = (if truthy si then si else image_col row)"
    define th where "th = (if truthy sth then sth else thumb row)"
    have ok: "sqlite_int_ok i"
      using a Some by (cases "sqlite_int_ok i") (simp_all add: mark_as_sold_def)
    have "Inr d' = (Inr (d\<lparr>products :=
            map (\<lambda>x. if id_col x = i then sold_update invoice img th ts x else x)
              (products d)\<rparr>) :: py_error + db)"
      using a Some ok by (auto simp: mark_as_sold_def Let_def img_def th_def)
    then have eq: "products d' =
            map (\<lambda>x. if id_col x = i then sold_update invoice img th ts x else x) (products d)"
      by simp
    show ?thesis
    proof (intro ballI impI)
      fix r
      assume r: "r \<in> set (products d')" "id_col r = i"
      from r(1) have "r \<in> (\<lambda>x. if id_col x = i then sold_update invoice img th ts x else x)
                         ` set (products d)"
        unfolding eq by (simp only: set_map)
      then obtain x where
        x: "r = (if id_col x = i then sold_update invoice img th ts x else x)"
        by (rule imageE)
      have "id_col x = i"
        using x r(2) by (cases "id_col x = i") simp_all
      with x have "r = sold_update invoice img th ts x"
        by simp
      then show "sold_invoice r = Some invoice \<and> quantity r = Some 0 \<and> sold_at r = Some ts"
        by (simp add: sold_update_def)
    qed
  qed
qed

theorem sold_rows_have_zero_quantity_witness:
  "list_ex (\<lambda>r. truthy (sold_invoice r)) (products (app_db (run ''/data'' no_files sale_events)))
   \<and> list_all (\<lambda>r. quantity r = Some 0)
        (filter (\<lambda>r. truthy (sold_invoice r))
           (products (app_db (run ''/data'' no_files sale_events))))
   \<and> py_int (PInt 1) = Inr 1
   \<and> get_jalali_datetime_string nowruz_1403 = Inr ''1403/01/01 10:01''
   \<and> (\<exists>d'. mark_as_sold one_ring_db (PInt 1) ''14'' None None nowruz_1403 = Inr d'
        \<and> list_ex (\<lambda>r. id_col r = 1) (products d')
        \<and> list_all (\<lambda>r. sold_invoice r = Some ''14'' \<and> quantity r = Some 0
                          \<and> sold_at r = Some ''1403/01/01 10:01'')
             (filter (\<lambda>r. id_col r = 1) (products d')))"
proof -
  have ex: "list_ex (\<lambda>r. truthy (sold_invoice r))
              (products (app_db (run ''/data'' no_files sale_events)))"
    by (simp add: sale_events_db sold_ring_db_def truthy_def)
  have p: "py_int (PInt 1) = Inr 1"
    by (simp add: py_int_def)
  have ts: "get_jalali_datetime_string nowruz_1403 = Inr ''1403/01/01 10:01''"
    by (rule nowruz_timestamp)
  obtain d' where m: "mark_as_sold one_ring_db (PInt 1) ''14'' None None nowruz_1403 = Inr d'"
    by (simp add: mark_as_sold_def py_int_def sqlite_int_ok_def one_ring_db_def make_row_def ts)
  have ids: "list_ex (\<lambda>r. id_col r = 1) (products d')"
    using m
    by (auto simp: mark_as_sold_def py_int_def sqlite_int_ok_def one_ring_db_def make_row_def ts
        sold_update_def)
  note inst = sold_rows_have_zero_quantity
      [of "''/data''" no_files sale_events "PInt 1" 1 nowruz_1403 "''1403/01/01 10:01''"
          one_ring_db "''14''" None None d']
  show ?thesis
    using inst ex p ts m ids by (auto simp: list_all_iff)
qed

text \<open>
  C4.  In every reachable state no two product rows carry the same id, and no two carry
  the same code unless the code is NULL.  The loop of \<open>save_batch_products\<close> ends with a
  sequence number, not below the one it started from, whose code no row carries, so
  that the INSERT after it does not violate the UNIQUE constraint of the column.
\<close>

theorem product_codes_unique:
  "codes_unique (products (app_db (run ud fs evs)))
   \<and> ids_unique (products (app_db (run ud fs evs)))
   \<and> (\<forall>i j. i < j \<and> j < length (products (app_db (run ud fs evs)))
             \<and> product_code (products (app_db (run ud fs evs)) ! i) \<noteq> None
         \<longrightarrow> product_code (products (app_db (run ud fs evs)) ! i)
               \<noteq> product_code (products (app_db (run ud fs evs)) ! j))
   \<and> s \<le> find_free_code d pfx s
   \<and> get_product_by_code d (pfx @ str_nat (find_free_code d pfx s)) = None
   \<and> add_product d (batch_product (pfx @ str_nat (find_free_code d pfx s)) c b ts idx e)
       \<noteq> Inl IntegrityError"
proof -
  have ok: "table_ok (app_db (run ud fs evs))"
    by (rule table_ok_run)
  then have u: "codes_unique (products (app_db (run ud fs evs)))"
    by (simp add: table_ok_def)
  have free: "get_product_by_code d (pfx @ str_nat (find_free_code d pfx s)) = None"
    by (rule find_free_code_free)
  have "\<not> code_taken (products d) (Some (pfx @ str_nat (find_free_code d pfx s)))"
    using free by (rule free_code_not_taken)
  then have ins: "add_product d (batch_product (pfx @ str_nat (find_free_code d pfx s)) c b ts idx e)
       \<noteq> Inl IntegrityError"
    by (simp add: add_product_def batch_product_def Let_def)
  have nth: "\<forall>i j. i < j \<and> j < length (products (app_db (run ud fs evs)))
             \<and> product_code (products (app_db (run ud fs evs)) ! i) \<noteq> None
         \<longrightarrow> product_code (products (app_db (run ud fs evs)) ! i)
               \<noteq> product_code (products (app_db (run ud fs evs)) ! j)"
  proof (intro allI impI notI)
    fix i j
    assume h: "i < j \<and> j < length (products (app_db (run ud fs evs)))
               \<and> product_code (products (app_db (run ud fs evs)) ! i) \<noteq> None"
      and same: "product_code (products (app_db (run ud fs evs)) ! i)
                 = product_code (products (app_db (run ud fs evs)) ! j)"
    from h have "i < j" "j < length (products (app_db (run ud fs evs)))"
      by simp_all
    then have "product_code (products (app_db (run ud fs evs)) ! i) = None"
      using same by (rule codes_unique_nth [OF u])
    with h show False
      by simp
  qed
  have ids: "ids_unique (products (app_db (run ud fs evs)))"
    using ok by (simp add: table_ok_def)
  have ge: "s \<le> find_free_code d pfx s"
    by (rule find_free_code_ge)
  show ?thesis
    using u ids nth ge free ins by (intro conjI)
qed

theorem product_codes_unique_witness:
  "map product_code (products (app_db (run ''/data'' no_files sale_events)))
     = [Some ''X1'', Some ''X2'']
   \<and> codes_unique (products (app_db (run ''/data'' no_files sale_events)))
   \<and> ids_unique (products (app_db (run ''/data'' no_files sale_events)))
   \<and> (0::nat) < 1 \<and> 1 < length (products (app_db (run ''/data'' no_files sale_events)))
   \<and> product_code (products (app_db (run ''/data'' no_files sale_events)) ! 0) \<noteq> None
   \<and> product_code (products (app_db (run ''/data'' no_files sale_events)) ! 0)
       \<noteq> product_code (products (app_db (run ''/data'' no_files sale_events)) ! 1)
   \<and> find_free_code one_ring_db ''R'' 1 = 2
   \<and> get_product_by_code one_ring_db (''R'' @ str_nat (find_free_code one_ring_db ''R'' 1)) = None
   \<and> add_product one_ring_db
        (batch_product (''R'' @ str_nat (find_free_code one_ring_db ''R'' 1)) ''rings'' ''12''
           ''1403/01/01 10:01'' 0 ring_entry) \<noteq> Inl IntegrityError"
proof -
  have codes: "map product_code (products (app_db (run ''/data'' no_files sale_events)))
                 = [Some ''X1'', Some ''X2'']"
    by (simp add: sale_events_db sold_ring_db_def)
  have len: "length (products (app_db (run ''/data'' no_files sale_events))) = 2"
    by (simp add: sale_events_db sold_ring_db_def)
  have first: "product_code (products (app_db (run ''/data'' no_files sale_events)) ! 0) \<noteq> None"
    by (simp add: sale_events_db sold_ring_db_def)
  have f: "find_free_code one_ring_db ''R'' 1 = 2"
    by code_simp
  note inst = product_codes_unique
      [of "''/data''" no_files sale_events 1 one_ring_db "''R''" "''rings''" "''12''"
          "''1403/01/01 10:01''" 0 ring_entry]
  show ?thesis
    using inst codes len first f by simp
qed


section \<open>CSV export and automatic deletion\<close>

lemma get_all_products_all:
  "set (get_all_products d True) = set (products d)
   \<and> length (get_all_products d True) = length (products d)"
  by (simp add: get_all_products_def)

lemma csv_row_columns:
  "column ''id'' (csv_row p) = Some (CInt (id_col p))
   \<and> column ''product_code'' (csv_row p) = Some (str_cell (product_code p))
   \<and> column ''name'' (csv_row p) = Some (str_cell (name p))
   \<and> column ''category'' (csv_row p) = Some (str_cell (category p))
   \<and> column ''base_number'' (csv_row p) = Some (str_cell (base_number p))
   \<and> column ''weight'' (csv_row p) = Some (real_cell (weight p))
   \<and> column ''quantity'' (csv_row p) = Some (int_cell (quantity p))
   \<and> column ''purity'' (csv_row p) = Some (str_cell (purity p))
   \<and> column ''notes'' (csv_row p) = Some (str_cell (notes_col p))
   \<and> column ''image'' (csv_row p) = Some (str_cell (image_col p))
   \<and> column ''sold_invoice'' (csv_row p) = Some (str_cell (sold_invoice p))
   \<and> column ''created_at'' (csv_row p) = Some (str_cell (created_at p))
   \<and> column ''sold_at'' (csv_row p) = Some (str_cell (sold_at p))"
  by (simp add: column_def csv_header_def csv_row_def)

text \<open>
  C5 (as amended).  When the table holds at least one product, \<open>export_all_csv\<close>
  writes a header row that is exactly id, product_code, name, category, base_number,
  weight, quantity, purity, notes, image, sold_invoice, created_at, sold_at, followed by
  one row for every product, sold ones included, each listing the fields of its product
  under the columns of the same name.
\<close>

theorem export_all_csv_columns:
  assumes "products d \<noteq> []"
  shows "\<exists>rows.
           export_all_csv d
             = Some (map CStr [''id'', ''product_code'', ''name'', ''category'', ''base_number'',
                               ''weight'', ''quantity'', ''purity'', ''notes'', ''image'',
                               ''sold_invoice'', ''created_at'', ''sold_at''] # rows)
         \<and> length rows = length (products d)
         \<and> set rows = csv_row ` set (products d)
         \<and> (\<forall>p\<in>set (products d).
               csv_row p \<in> set rows
             \<and> column ''id'' (csv_row p) = Some (CInt (id_col p))
             \<and> column ''product_code'' (csv_row p) = Some (str_cell (product_code p))
             \<and> column ''name'' (csv_row p) = Some (str_cell (name p))
             \<and> column ''category'' (csv_row p) = Some (str_cell (category p))
             \<and> column ''base_number'' (csv_row p) = Some (str_cell (base_number p))
             \<and> column ''weight'' (csv_row p) = Some (real_cell (weight p))
             \<and> column ''quantity'' (csv_row p) = Some (int_cell (quantity p))
             \<and> column ''purity'' (csv_row p) = Some (str_cell (purity p))
             \<and> column ''notes'' (csv_row p) = Some (str_cell (notes_col p))
             \<and> column ''image'' (csv_row p) = Some (str_cell (image_col p))
             \<and> column ''sold_invoice'' (csv_row p) = Some (str_cell (sold_invoice p))
             \<and> column ''created_at'' (csv_row p) = Some (str_cell (created_at p))
             \<and> column ''sold_at'' (csv_row p) = Some (str_cell (sold_at p)))"
proof -
  let ?rows = "map csv_row (get_all_products d True)"
  have all: "set (get_all_products d True) = set (products d)"
    and len: "length (get_all_products d True) = length (products d)"
    using get_all_products_all [of d] by simp_all
  have "get_all_products d True \<noteq> []"
    using assms len by (metis length_0_conv)
  then have e: "export_all_csv d
             = Some (map CStr [''id'', ''product_code'', ''name'', ''category'', ''base_number'',
                               ''weight'', ''quantity'', ''purity'', ''notes'', ''image'',
                               ''sold_invoice'', ''created_at'', ''sold_at''] # ?rows)"
    by (simp add: export_all_csv_def csv_header_def)
  have l: "length ?rows = length (products d)"
    using len by simp
  have s: "set ?rows = csv_row ` set (products d)"
    using all by simp
  have "\<forall>p\<in>set (products d).
               csv_row p \<in> set ?rows
             \<and> column ''id'' (csv_row p) = Some (CInt (id_col p))
             \<and> column ''product_code'' (csv_row p) = Some (str_cell (product_code p))
             \<and> column ''name'' (csv_row p) = Some (str_cell (name p))
             \<and> column ''category'' (csv_row p) = Some (str_cell (category p))
             \<and> column ''base_number'' (csv_row p) = Some (str_cell (base_number p))
             \<and> column ''weight'' (csv_row p) = Some (real_cell (weight p))
             \<and> column ''quantity'' (csv_row p) = Some (int_cell (quantity p))
             \<and> column ''purity'' (csv_row p) = Some (str_cell (purity p))
             \<and> column ''notes'' (csv_row p) = Some (str_cell (notes_col p))
             \<and> column ''image'' (csv_row p) = Some (str_cell (image_col p))
             \<and> column ''sold_invoice'' (csv_row p) = Some (str_cell (sold_invoice p))
             \<and> column ''created_at'' (csv_row p) = Some (str_cell (created_at p))
             \<and> column ''sold_at'' (csv_row p) = Some (str_cell (sold_at p))"
  proof
    fix p
    assume "p \<in> set (products d)"
    then have "csv_row p \<in> set ?rows"
      unfolding s by (rule imageI)
    then show "csv_row p \<in> set ?rows
             \<and> column ''id'' (csv_row p) = Some (CInt (id_col p))
             \<and> column ''product_code'' (csv_row p) = Some (str_cell (product_code p))
             \<and> column ''name'' (csv_row p) = Some (str_cell (name p))
             \<and> column ''category'' (csv_row p) = Some (str_cell (category p))
             \<and> column ''base_number'' (csv_row p) = Some (str_cell (base_number p))
             \<and> column ''weight'' (csv_row p) = Some (real_cell (weight p))
             \<and> column ''quantity'' (csv_row p) = Some (int_cell (quantity p))
             \<and> column ''purity'' (csv_row p) = Some (str_cell (purity p))
             \<and> column ''notes'' (csv_row p) = Some (str_cell (notes_col p))
             \<and> column ''image'' (csv_row p) = Some (str_cell (image_col p))
             \<and> column ''sold_invoice'' (csv_row p) = Some (str_cell (sold_invoice p))
             \<and> column ''created_at'' (csv_row p) = Some (str_cell (created_at p))
             \<and> column ''sold_at'' (csv_row p) = Some (str_cell (sold_at p))"
      using csv_row_columns [of p] by (intro conjI) simp_all
  qed
  with e l s show ?thesis
    by (intro exI [where x = ?rows] conjI)
qed

theorem export_all_csv_columns_witness:
  "products (app_db (run ''/data'' no_files sale_events)) \<noteq> []
   \<and> (\<exists>rows.
         export_all_csv (app_db (run ''/data'' no_files sale_events))
           = Some (map CStr [''id'', ''product_code'', ''name'', ''category'', ''base_number'',
                             ''weight'', ''quantity'', ''purity'', ''notes'', ''image'',
                             ''sold_invoice'', ''created_at'', ''sold_at''] # rows)
       \<and> length rows = length (products (app_db (run ''/data'' no_files sale_events)))
       \<and> set rows = csv_row ` set (products (app_db (run ''/data'' no_files sale_events))))
   \<and> export_all_csv (app_db (run ''/data'' no_files sale_events))
       = Some [map CStr csv_header,
               [CInt 2, CStr ''X2'', CStr ''ring #1'', CStr ''rings'', CStr ''-'', CReal 3, CInt 1,
                CStr ''18'', CStr '''', CStr '''', CNone, CStr ''1403/01/01 10:01'', CNone],
               [CInt 1, CStr ''X1'', CStr ''ring #1'', CStr ''rings'', CStr ''-'', CReal 3, CInt 0,
                CStr ''18'', CStr '''', CStr '''', CStr ''14'', CStr ''1403/01/01 10:01'',
                CStr ''1403/01/01 10:01'']]"
proof -
  have ne: "products (app_db (run ''/data'' no_files sale_events)) \<noteq> []"
    by (simp add: sale_events_db sold_ring_db_def)
  have ex: "export_all_csv (app_db (run ''/data'' no_files sale_events))
       = Some [map CStr csv_header,
               [CInt 2, CStr ''X2'', CStr ''ring #1'', CStr ''rings'', CStr ''-'', CReal 3, CInt 1,
                CStr ''18'', CStr '''', CStr '''', CNone, CStr ''1403/01/01 10:01'', CNone],
               [CInt 1, CStr ''X1'', CStr ''ring #1'', CStr ''rings'', CStr ''-'', CReal 3, CInt 0,
                CStr ''18'', CStr '''', CStr '''', CStr ''14'', CStr ''1403/01/01 10:01'',
                CStr ''1403/01/01 10:01'']]"
    unfolding conjunct1 [OF sale_events_db] by code_simp
  obtain rows where
    "export_all_csv (app_db (run ''/data'' no_files sale_events))
           = Some (map CStr [''id'', ''product_code'', ''name'', ''category'', ''base_number'',
                             ''weight'', ''quantity'', ''purity'', ''notes'', ''image'',
                             ''sold_invoice'', ''created_at'', ''sold_at''] # rows)
       \<and> length rows = length (products (app_db (run ''/data'' no_files sale_events)))
       \<and> set rows = csv_row ` set (products (app_db (run ''/data'' no_files sale_events)))"
    using export_all_csv_columns [OF ne] by blast
  then show ?thesis
    using ne ex by blast
qed

text \<open>
  The claim as stated fails on a database without products: the function shows a notice
  and writes no file, so there is no header row either.
\<close>

theorem export_all_csv_columns_counterexample:
  "products create_tables = [] \<and> export_all_csv create_tables = None"
  by (simp add: export_all_csv_def get_all_products_def create_tables_def)

text \<open>
  C2.  The cutoff of \<open>delete_old_sold_products\<close> is a Gregorian ISO text (2023-12-21T...)
  while \<open>created_at\<close> holds the Jalali text written by \<open>save_batch_products\<close>
  (1403/01/01 ...), and SQLite compares the two byte by byte.  A product that is added
  and sold on 2024-03-20 at 10:01 is deleted by a cleanup run at that very minute with
  the three-month window: it is not older than the cutoff, but its text is smaller.
\<close>

lemma jalali_text_below_gregorian_text:
  assumes "byte a < byte b"
  shows "text_less (a # t) (b # c)"
  using assms by simp

lemma cleanup_of_sold_ring_db:
  "delete_old_sold_products sold_ring_db no_files ''/data/goldshop.db'' nowruz_1403 3
     = (sold_ring_db\<lparr>products := [products sold_ring_db ! 1]\<rparr>, no_files, 1)"
  by code_simp

theorem cleanup_deletes_product_sold_today:
  "map (\<lambda>r. (id_col r, created_at r, sold_invoice r))
       (products (app_db (run ''/data'' no_files sale_events)))
     = [(1, Some ''1403/01/01 10:01'', Some ''14''), (2, Some ''1403/01/01 10:01'', None)]
   \<and> get_jalali_datetime_string nowruz_1403 = Inr ''1403/01/01 10:01''
   \<and> cutoff_date nowruz_1403 3 = Inr ''2023-12-21T10:01:00''
   \<and> text_less ''1403/01/01 10:01'' ''2023-12-21T10:01:00''
   \<and> map id_col (products (app_db (run ''/data'' no_files
                                    (sale_events @ [Auto_cleanup nowruz_1403])))) = [2]
   \<and> snd (snd (delete_old_sold_products (app_db (run ''/data'' no_files sale_events)) no_files
                 ''/data/goldshop.db'' nowruz_1403 3)) = 1"
proof -
  have rows: "map (\<lambda>r. (id_col r, created_at r, sold_invoice r))
       (products (app_db (run ''/data'' no_files sale_events)))
     = [(1, Some ''1403/01/01 10:01'', Some ''14''), (2, Some ''1403/01/01 10:01'', None)]"
    by (simp add: sale_events_db sold_ring_db_def)
  have cut: "cutoff_date nowruz_1403 3 = Inr ''2023-12-21T10:01:00''"
    by code_simp
  have less: "text_less ''1403/01/01 10:01'' ''2023-12-21T10:01:00''"
    by (simp add: byte_def)
  have path: "path_join ''/data'' ''goldshop.db'' = ''/data/goldshop.db''"
    by (simp add: path_join_def)
  have unroll: "run ''/data'' no_files (sale_events @ [Auto_cleanup nowruz_1403])
          = step ''/data'' (run ''/data'' no_files sale_events) (Auto_cleanup nowruz_1403)"
    by (simp add: run_def)
  have "app_db (step ''/data'' (run ''/data'' no_files sale_events) (Auto_cleanup nowruz_1403))
          = sold_ring_db\<lparr>products := [products sold_ring_db ! 1]\<rparr>"
    by (simp add: sale_events_db path cleanup_of_sold_ring_db)
  then have after: "map id_col (products (app_db (run ''/data'' no_files
                                    (sale_events @ [Auto_cleanup nowruz_1403])))) = [2]"
    unfolding unroll by (simp add: sold_ring_db_def)
  have count: "snd (snd (delete_old_sold_products (app_db (run ''/data'' no_files sale_events))
                 no_files ''/data/goldshop.db'' nowruz_1403 3)) = 1"
    by (simp add: sale_events_db cleanup_of_sold_ring_db)
  show ?thesis
    using rows nowruz_timestamp cut less after count by (intro conjI)
qed


section \<open>Path names: facts\<close>

text \<open>The equations that evaluate the functions of \<open>ntpath\<close> on a given path.\<close>

lemmas nt_eval = backslashes_def bslash_def is_sep_def ascii_upper_def find_sep_def
  split_bslash_def char_len_def unc_prefix_def nt_splitdrive_def nt_isabs_def nt_join_step_def
  nt_join_list_def nt_join_def nt_basename_def nt_norm_step_def nt_normpath_def nt_abspath_def
  nt_relpath_def byte_def Let_def

subsection \<open>Splitting and joining\<close>

lemma split_sep_nonempty [simp]: "split_sep s \<noteq> []"
  by (induction s) auto

lemma split_sep_append:
  "split_sep (a @ CHR ''/'' # b) = split_sep a @ split_sep b"
  by (induction a) auto

lemma split_sep_no_slash: "c \<in> set (split_sep s) \<Longrightarrow> CHR ''/'' \<notin> set c"
proof (induction s arbitrary: c)
  case Nil
  then show ?case by simp
next
  case (Cons x s)
  show ?case
  proof (cases "x = CHR ''/''")
    case True
    with Cons show ?thesis by auto
  next
    case False
    have mem: "hd (split_sep s) \<in> set (split_sep s)"
      by simp
    have "c = x # hd (split_sep s) \<or> c \<in> set (tl (split_sep s))"
      using Cons.prems False by simp
    then show ?thesis
    proof
      assume "c = x # hd (split_sep s)"
      with False Cons.IH [OF mem] show ?thesis by simp
    next
      assume "c \<in> set (tl (split_sep s))"
      then have "c \<in> set (split_sep s)"
        by (rule list.set_sel(2) [rotated]) simp
      then show ?thesis by (rule Cons.IH)
    qed
  qed
qed

lemma split_sep_single: "CHR ''/'' \<notin> set c \<Longrightarrow> split_sep c = [c]"
  by (induction c) auto

lemma split_sep_join:
  assumes "cs \<noteq> []" "\<forall>c\<in>set cs. CHR ''/'' \<notin> set c"
  shows "split_sep (join_sep cs) = cs"
  using assms
proof (induction cs rule: join_sep.induct)
  case 1
  then show ?case by simp
next
  case (2 x)
  then show ?case by (simp add: split_sep_single)
next
  case (3 x y ys)
  have "split_sep (x @ CHR ''/'' # join_sep (y # ys)) = split_sep x @ split_sep (join_sep (y # ys))"
    by (rule split_sep_append)
  with 3 show ?case
    by (simp add: split_sep_single)
qed

lemma join_sep_snoc:
  "cs \<noteq> [] \<Longrightarrow> join_sep (cs @ [c]) = join_sep cs @ CHR ''/'' # c"
  by (induction cs rule: join_sep.induct) auto

lemma join_sep_head:
  assumes "cs \<noteq> []" "hd cs \<noteq> []"
  shows "join_sep cs \<noteq> [] \<and> hd (join_sep cs) = hd (hd cs)"
  using assms by (induction cs rule: join_sep.induct) auto

lemma join_sep_last:
  assumes "cs \<noteq> []" "last cs \<noteq> []"
  shows "join_sep cs \<noteq> [] \<and> last (join_sep cs) = last (last cs)"
  using assms by (induction cs rule: join_sep.induct) auto

subsection \<open>Normalisation\<close>

lemma norm_step_skip: "c = [] \<or> c = ''.'' \<Longrightarrow> norm_step r st c = st"
  by (auto simp add: norm_step_def)

lemma norm_step_push:
  "c \<noteq> [] \<Longrightarrow> c \<noteq> ''.'' \<Longrightarrow> c \<noteq> ''..'' \<Longrightarrow> norm_step r st c = st @ [c]"
  by (simp add: norm_step_def)

lemma norm_step_pop:
  "st \<noteq> [] \<Longrightarrow> last st \<noteq> ''..'' \<Longrightarrow> norm_step r st ''..'' = butlast st"
  by (simp add: norm_step_def)

lemma norm_step_up:
  "st \<noteq> [] \<Longrightarrow> last st = ''..'' \<Longrightarrow> norm_step r st ''..'' = st @ [''..'']"
  by (simp add: norm_step_def)

lemma norm_step_root: "norm_step True [] ''..'' = []"
  by (simp add: norm_step_def)

lemma norm_step_relative: "norm_step False [] ''..'' = [''..'']"
  by (simp add: norm_step_def)

lemma norm_step_clean: "clean_comp c \<Longrightarrow> norm_step r st c = st @ [c]"
  by (simp add: norm_step_push clean_comp_def)

lemma norm_clean_append:
  "list_all clean_comp cs \<Longrightarrow> foldl (norm_step r) st cs = st @ cs"
  by (induction cs arbitrary: st) (simp_all add: norm_step_clean)

lemma norm_step_set:
  assumes "x \<in> set (norm_step r st c)"
  shows "x \<in> set st \<or> (x = c \<and> c \<noteq> [] \<and> c \<noteq> ''.'')"
proof (cases "c = [] \<or> c = ''.''")
  case True
  with assms show ?thesis by (simp add: norm_step_skip)
next
  case False
  have "norm_step r st c = st @ [c] \<or> norm_step r st c = butlast st \<or> norm_step r st c = st"
    by (simp add: norm_step_def)
  with assms False show ?thesis
    by (auto dest: in_set_butlastD)
qed

lemma norm_set:
  "x \<in> set (foldl (norm_step r) st cs) \<Longrightarrow>
     x \<in> set st \<or> (x \<in> set cs \<and> x \<noteq> [] \<and> x \<noteq> ''.'')"
proof (induction cs arbitrary: st)
  case Nil
  then show ?case by simp
next
  case (Cons c cs)
  from Cons.prems have "x \<in> set (foldl (norm_step r) (norm_step r st c) cs)"
    by simp
  then have "x \<in> set (norm_step r st c) \<or> (x \<in> set cs \<and> x \<noteq> [] \<and> x \<noteq> ''.'')"
    by (rule Cons.IH)
  then show ?case
  proof
    assume "x \<in> set (norm_step r st c)"
    then have "x \<in> set st \<or> (x = c \<and> c \<noteq> [] \<and> c \<noteq> ''.'')"
      by (rule norm_step_set)
    then show ?thesis by auto
  next
    assume "x \<in> set cs \<and> x \<noteq> [] \<and> x \<noteq> ''.''"
    then show ?thesis by simp
  qed
qed

text \<open>In a relative path the \<open>..\<close> components that remain are at the head.\<close>

lemma updots_at_head_step:
  assumes "''..'' \<in> set st \<longrightarrow> hd st = ''..''"
  shows "''..'' \<in> set (norm_step False st c) \<longrightarrow> hd (norm_step False st c) = ''..''"
proof (cases "c = [] \<or> c = ''.''")
  case True
  with assms show ?thesis by (simp add: norm_step_skip)
next
  case False
  note live = this
  show ?thesis
  proof (cases "c = ''..''")
    case False
    with live have "norm_step False st c = st @ [c]"
      by (simp add: norm_step_push)
    with assms False show ?thesis
      by (cases st) auto
  next
    case True
    show ?thesis
    proof (cases "st = []")
      case True
      with \<open>c = ''..''\<close> show ?thesis by (simp add: norm_step_relative)
    next
      case False
      note full = this
      show ?thesis
      proof (cases "last st = ''..''")
        case True
        with full \<open>c = ''..''\<close> have "norm_step False st c = st @ [''..'']"
          by (simp add: norm_step_up)
        moreover from True full have "''..'' \<in> set st"
          using last_in_set by metis
        ultimately show ?thesis
          using assms full by simp
      next
        case False
        with full \<open>c = ''..''\<close> have eq: "norm_step False st c = butlast st"
          by (simp add: norm_step_pop)
        show ?thesis
        proof
          assume "''..'' \<in> set (norm_step False st c)"
          then have mem: "''..'' \<in> set (butlast st)"
            by (simp add: eq)
          then have "''..'' \<in> set st"
            by (rule in_set_butlastD)
          with assms have "hd st = ''..''"
            by simp
          moreover from mem have "butlast st \<noteq> []"
            by auto
          then have "hd (butlast st) = hd st"
            by (cases st) (auto split: if_splits)
          ultimately show "hd (norm_step False st c) = ''..''"
            by (simp add: eq)
        qed
      qed
    qed
  qed
qed

lemma updots_at_head:
  "''..'' \<in> set st \<longrightarrow> hd st = ''..'' \<Longrightarrow>
   ''..'' \<in> set (foldl (norm_step False) st cs) \<longrightarrow>
     hd (foldl (norm_step False) st cs) = ''..''"
proof (induction cs arbitrary: st)
  case Nil
  then show ?case by simp
next
  case (Cons c cs)
  have "''..'' \<in> set (norm_step False st c) \<longrightarrow> hd (norm_step False st c) = ''..''"
    using Cons.prems by (rule updots_at_head_step)
  then show ?case
    using Cons.IH by simp
qed

text \<open>A \<open>..\<close> at the head of a relative path stays there.\<close>

lemma updots_stay_step:
  assumes "st \<noteq> []" "hd st = ''..''"
  shows "norm_step False st c \<noteq> [] \<and> hd (norm_step False st c) = ''..''"
proof -
  have cases: "norm_step False st c = st \<or> norm_step False st c = st @ [c]
      \<or> (norm_step False st c = butlast st \<and> last st \<noteq> ''..'')"
    using assms(1) by (simp add: norm_step_def)
  have "butlast st \<noteq> [] \<and> hd (butlast st) = ''..''" if "last st \<noteq> ''..''"
  proof (cases st)
    case Nil
    with assms show ?thesis by simp
  next
    case (Cons a as)
    with assms that show ?thesis by (cases as) auto
  qed
  with cases assms show ?thesis by auto
qed

lemma updots_stay:
  "st \<noteq> [] \<Longrightarrow> hd st = ''..'' \<Longrightarrow>
     foldl (norm_step False) st cs \<noteq> [] \<and> hd (foldl (norm_step False) st cs) = ''..''"
proof (induction cs arbitrary: st)
  case Nil
  then show ?case by simp
next
  case (Cons c cs)
  have "norm_step False st c \<noteq> [] \<and> hd (norm_step False st c) = ''..''"
    using Cons.prems by (rule updots_stay_step)
  then show ?case
    using Cons.IH by simp
qed

text \<open>Below a base directory a path without remaining \<open>..\<close> is normalised as it is
  on its own.\<close>

lemma norm_below:
  assumes "''..'' \<notin> set st" "''..'' \<notin> set (foldl (norm_step False) st cs)"
  shows "foldl (norm_step r) (base @ st) cs = base @ foldl (norm_step False) st cs"
  using assms
proof (induction cs arbitrary: st)
  case Nil
  then show ?case by simp
next
  case (Cons c cs)
  let ?st = "norm_step False st c"
  have final: "''..'' \<notin> set (foldl (norm_step False) ?st cs)"
    using Cons.prems(2) by simp
  have not_up: "\<not> (st = [] \<and> c = ''..'')"
  proof
    assume "st = [] \<and> c = ''..''"
    then have "?st = [''..'']"
      by (simp add: norm_step_relative)
    then have "?st \<noteq> []" "hd ?st = ''..''"
      by simp_all
    then have "foldl (norm_step False) ?st cs \<noteq> [] \<and> hd (foldl (norm_step False) ?st cs) = ''..''"
      by (rule updots_stay)
    then have "''..'' \<in> set (foldl (norm_step False) ?st cs)"
      using hd_in_set by metis
    with final show False by simp
  qed
  have step: "norm_step r (base @ st) c = base @ ?st"
  proof (cases "c = ''..''")
    case False
    then show ?thesis by (simp add: norm_step_def)
  next
    case True
    with not_up have full: "st \<noteq> []"
      by simp
    with Cons.prems(1) have "last st \<noteq> ''..''"
      using last_in_set by metis
    with full True show ?thesis
      by (simp add: norm_step_def butlast_append)
  qed
  have clean: "''..'' \<notin> set ?st"
  proof
    assume "''..'' \<in> set ?st"
    then have "''..'' \<in> set st \<or> (''..'' = c \<and> c \<noteq> [] \<and> c \<noteq> ''.'')"
      by (rule norm_step_set)
    with Cons.prems(1) have c: "c = ''..''"
      by auto
    with not_up have full: "st \<noteq> []"
      by simp
    with Cons.prems(1) have "last st \<noteq> ''..''"
      using last_in_set by metis
    with full c have "?st = butlast st"
      by (simp add: norm_step_pop)
    with \<open>''..'' \<in> set ?st\<close> have "''..'' \<in> set st"
      by (auto dest: in_set_butlastD)
    with Cons.prems(1) show False by simp
  qed
  have "foldl (norm_step r) (base @ st) (c # cs) = foldl (norm_step r) (base @ ?st) cs"
    by (simp add: step)
  also have "\<dots> = base @ foldl (norm_step False) ?st cs"
    using clean final by (rule Cons.IH)
  finally show ?case by simp
qed

subsection \<open>Absolute paths given by their components\<close>

lemma clean_comp_split: "clean_comp c \<Longrightarrow> split_sep c = [c]"
  by (simp add: clean_comp_def split_sep_single)

lemma clean_comp_relative: "clean_comp c \<Longrightarrow> \<not> prefix ''/'' c"
  by (cases c) (auto simp add: clean_comp_def)

lemma clean_comp_last: "clean_comp c \<Longrightarrow> c \<noteq> [] \<and> last c \<noteq> CHR ''/''"
  using last_in_set by (fastforce simp add: clean_comp_def)

lemma clean_comp_hd: "clean_comp c \<Longrightarrow> c \<noteq> [] \<and> hd c \<noteq> CHR ''/''"
  using hd_in_set by (fastforce simp add: clean_comp_def)

lemma clean_no_slash:
  "list_all clean_comp cs \<Longrightarrow> \<forall>c\<in>set cs. CHR ''/'' \<notin> set c"
  by (simp add: list_all_iff clean_comp_def)

lemma clean_nonempty:
  "list_all clean_comp cs \<Longrightarrow> filter (\<lambda>x. x \<noteq> []) cs = cs"
  by (induction cs) (simp_all add: clean_comp_def)

lemma clean_join_last:
  assumes "list_all clean_comp cs" "cs \<noteq> []"
  shows "join_sep cs \<noteq> [] \<and> last (join_sep cs) \<noteq> CHR ''/''"
proof -
  from assms have "clean_comp (last cs)"
    by (simp add: list_all_iff)
  then have "last cs \<noteq> [] \<and> last (last cs) \<noteq> CHR ''/''"
    by (rule clean_comp_last)
  with assms(2) show ?thesis
    using join_sep_last [of cs] by simp
qed

lemma clean_join_hd:
  assumes "list_all clean_comp cs" "cs \<noteq> []"
  shows "join_sep cs \<noteq> [] \<and> hd (join_sep cs) \<noteq> CHR ''/''"
proof -
  from assms have "clean_comp (hd cs)"
    by (cases cs) simp_all
  then have "hd cs \<noteq> [] \<and> hd (hd cs) \<noteq> CHR ''/''"
    by (rule clean_comp_hd)
  with assms(2) show ?thesis
    using join_sep_head [of cs] by simp
qed

lemma initial_slashes_one:
  "s = [] \<or> hd s \<noteq> CHR ''/'' \<Longrightarrow> initial_slashes (CHR ''/'' # s) = 1"
  by (cases s) (auto simp add: initial_slashes_def)

lemma abs_path_split:
  assumes "list_all clean_comp cs"
  shows "filter (\<lambda>x. x \<noteq> []) (split_sep (abs_path cs)) = cs"
proof (cases "cs = []")
  case True
  then show ?thesis by (simp add: abs_path_def)
next
  case False
  with assms have "split_sep (join_sep cs) = cs"
    by (simp add: split_sep_join clean_no_slash)
  with assms show ?thesis
    by (simp add: abs_path_def clean_nonempty)
qed

lemma abs_path_slashes:
  assumes "list_all clean_comp cs"
  shows "initial_slashes (abs_path cs) = 1"
proof -
  have "join_sep cs = [] \<or> hd (join_sep cs) \<noteq> CHR ''/''"
    using clean_join_hd [OF assms] by (cases "cs = []") simp_all
  then show ?thesis
    unfolding abs_path_def by (rule initial_slashes_one)
qed

text \<open>The normal form of a path with one leading \<open>/\<close>.\<close>

lemma resolved_rooted:
  assumes "initial_slashes p = 1"
  shows "resolved p = foldl (norm_step True) [] (split_sep p)"
proof -
  let ?comps = "foldl (norm_step True) [] (split_sep p)"
  from assms have p: "p \<noteq> []"
    by (auto simp add: initial_slashes_def)
  with assms have norm: "normpath p = CHR ''/'' # join_sep ?comps"
    by (simp add: normpath_def Let_def)
  have parts: "\<forall>c\<in>set ?comps. c \<noteq> [] \<and> CHR ''/'' \<notin> set c"
  proof
    fix c
    assume "c \<in> set ?comps"
    then have "c \<in> set [] \<or> (c \<in> set (split_sep p) \<and> c \<noteq> [] \<and> c \<noteq> ''.'')"
      by (rule norm_set)
    then show "c \<noteq> [] \<and> CHR ''/'' \<notin> set c"
      by (auto dest: split_sep_no_slash)
  qed
  then have keep: "filter (\<lambda>x. x \<noteq> []) ?comps = ?comps"
    by (simp add: filter_id_conv)
  show ?thesis
  proof (cases "?comps = []")
    case True
    then show ?thesis
      by (simp add: resolved_def norm)
  next
    case False
    with parts have "split_sep (join_sep ?comps) = ?comps"
      by (simp add: split_sep_join)
    with keep show ?thesis
      by (simp add: resolved_def norm)
  qed
qed

lemma resolved_abs_path:
  assumes "list_all clean_comp cs"
  shows "resolved (abs_path cs) = cs"
proof -
  have "resolved (abs_path cs) = foldl (norm_step True) [] (split_sep (abs_path cs))"
    using abs_path_slashes [OF assms] by (rule resolved_rooted)
  also have "\<dots> = foldl (norm_step True) [] (if cs = [] then [[]] else cs)"
  proof (cases "cs = []")
    case True
    then show ?thesis by (simp add: abs_path_def norm_step_skip)
  next
    case False
    with assms have "split_sep (join_sep cs) = cs"
      by (simp add: split_sep_join clean_no_slash)
    with False show ?thesis
      by (simp add: abs_path_def norm_step_skip)
  qed
  also have "\<dots> = cs"
    using assms by (simp add: norm_clean_append norm_step_skip)
  finally show ?thesis .
qed

text \<open>Joining a relative path onto an absolute one.\<close>

lemma path_join_abs:
  assumes "list_all clean_comp cs" "\<not> prefix ''/'' r"
  shows "path_join (abs_path cs) r = CHR ''/'' # (if cs = [] then r else join_sep cs @ CHR ''/'' # r)"
proof (cases "cs = []")
  case True
  with assms(2) show ?thesis
    by (simp add: path_join_def abs_path_def)
next
  case False
  with assms(1) have "join_sep cs \<noteq> [] \<and> last (join_sep cs) \<noteq> CHR ''/''"
    by (simp add: clean_join_last)
  with False assms(2) show ?thesis
    by (simp add: path_join_def abs_path_def)
qed

lemma path_join_abs_split:
  assumes "list_all clean_comp cs" "\<not> prefix ''/'' r"
  shows "split_sep (path_join (abs_path cs) r) = [] # cs @ split_sep r"
proof (cases "cs = []")
  case True
  with assms show ?thesis
    by (simp add: path_join_abs)
next
  case False
  with assms(1) have "split_sep (join_sep cs) = cs"
    by (simp add: split_sep_join clean_no_slash)
  with False assms show ?thesis
    by (simp add: path_join_abs split_sep_append)
qed

lemma path_join_abs_slashes:
  assumes "list_all clean_comp cs" "\<not> prefix ''/'' r"
  shows "initial_slashes (path_join (abs_path cs) r) = 1"
proof (cases "cs = []")
  case True
  from assms(2) have "r = [] \<or> hd r \<noteq> CHR ''/''"
    by (cases r) simp_all
  then have "initial_slashes (CHR ''/'' # r) = 1"
    by (rule initial_slashes_one)
  with True assms show ?thesis
    by (simp add: path_join_abs)
next
  case False
  with assms(1) have "join_sep cs \<noteq> [] \<and> hd (join_sep cs) \<noteq> CHR ''/''"
    by (simp add: clean_join_hd)
  then have "join_sep cs @ CHR ''/'' # r = [] \<or> hd (join_sep cs @ CHR ''/'' # r) \<noteq> CHR ''/''"
    by simp
  then have "initial_slashes (CHR ''/'' # (join_sep cs @ CHR ''/'' # r)) = 1"
    by (rule initial_slashes_one)
  with False assms show ?thesis
    by (simp add: path_join_abs)
qed

lemma resolved_path_join:
  assumes "list_all clean_comp cs" "\<not> prefix ''/'' r"
  shows "resolved (path_join (abs_path cs) r) = foldl (norm_step True) cs (split_sep r)"
proof -
  have "resolved (path_join (abs_path cs) r)
      = foldl (norm_step True) [] (split_sep (path_join (abs_path cs) r))"
    using path_join_abs_slashes [OF assms] by (rule resolved_rooted)
  also have "\<dots> = foldl (norm_step True) [] ([] # cs @ split_sep r)"
    by (simp add: path_join_abs_split [OF assms])
  also have "\<dots> = foldl (norm_step True) cs (split_sep r)"
    using assms(1) by (simp add: norm_step_skip norm_clean_append)
  finally show ?thesis .
qed

lemma path_join_comp:
  assumes "list_all clean_comp cs" "clean_comp c"
  shows "path_join (abs_path cs) c = abs_path (cs @ [c])"
proof -
  have "\<not> prefix ''/'' c"
    using assms(2) by (rule clean_comp_relative)
  with assms(1) have "path_join (abs_path cs) c
      = CHR ''/'' # (if cs = [] then c else join_sep cs @ CHR ''/'' # c)"
    by (rule path_join_abs)
  also have "\<dots> = abs_path (cs @ [c])"
    by (simp add: abs_path_def join_sep_snoc)
  finally show ?thesis .
qed

lemma isabs_path_join:
  assumes "list_all clean_comp cs" "\<not> prefix ''/'' r"
  shows "isabs (path_join (abs_path cs) r)"
  by (simp add: path_join_abs [OF assms] isabs_def)

text \<open>Joining components one after the other gives the joined text.\<close>

lemma join_sep_concat: "join_sep (x # cs) = x @ concat (map (\<lambda>c. CHR ''/'' # c) cs)"
  by (induction cs arbitrary: x) simp_all

lemma foldl_path_join:
  assumes "list_all clean_comp cs" "a \<noteq> []" "last a \<noteq> CHR ''/''"
  shows "foldl path_join a cs = a @ concat (map (\<lambda>c. CHR ''/'' # c) cs)"
  using assms
proof (induction cs arbitrary: a)
  case Nil
  then show ?case by simp
next
  case (Cons c cs)
  from Cons.prems(1) have c: "clean_comp c" and cs: "list_all clean_comp cs"
    by simp_all
  from c have rel: "\<not> prefix ''/'' c"
    by (rule clean_comp_relative)
  from c have tail: "c \<noteq> [] \<and> last c \<noteq> CHR ''/''"
    by (rule clean_comp_last)
  from rel Cons.prems(2,3) have eq: "path_join a c = a @ CHR ''/'' # c"
    by (simp add: path_join_def)
  have "foldl path_join (a @ CHR ''/'' # c) cs
      = (a @ CHR ''/'' # c) @ concat (map (\<lambda>c. CHR ''/'' # c) cs)"
    using cs tail by (intro Cons.IH) simp_all
  with eq show ?case by simp
qed

lemma commonprefix_append:
  "commonprefix (xs @ ys) (xs @ zs) = xs @ commonprefix ys zs"
  by (induction xs) simp_all

subsection \<open>Members of a backup archive\<close>

lemma basename_tail:
  assumes "CHR ''/'' \<notin> set b"
  shows "basename (a @ CHR ''/'' # b) = b"
proof -
  have "takeWhile (\<lambda>c. c \<noteq> CHR ''/'') (rev b @ CHR ''/'' # rev a) = rev b"
    using assms by (auto simp add: takeWhile_tail takeWhile_eq_all_conv)
  then show ?thesis
    by (simp add: basename_def)
qed

lemma basename_plain:
  assumes "CHR ''/'' \<notin> set b"
  shows "basename b = b"
proof -
  have "\<forall>c\<in>set (rev b). c \<noteq> CHR ''/''"
    using assms by auto
  then have "takeWhile (\<lambda>c. c \<noteq> CHR ''/'') (rev b) = rev b"
    by (simp only: takeWhile_eq_all_conv)
  then show ?thesis
    by (simp only: basename_def rev_rev_ident)
qed

lemma basename_path_join:
  assumes "CHR ''/'' \<notin> set b"
  shows "basename (path_join a b) = b"
proof -
  from assms have rel: "\<not> prefix ''/'' b"
    by (cases b) auto
  show ?thesis
  proof (cases "a = []")
    case True
    with rel assms show ?thesis
      by (simp add: path_join_def basename_plain)
  next
    case False
    note full = this
    show ?thesis
    proof (cases "last a = CHR ''/''")
      case True
      with full have "a = butlast a @ [CHR ''/'']"
        using append_butlast_last_id by metis
      then have "a @ b = butlast a @ CHR ''/'' # b"
        by (metis append_Cons append_Nil append_assoc)
      moreover have "basename (butlast a @ CHR ''/'' # b) = b"
        using assms by (rule basename_tail)
      ultimately have "basename (a @ b) = b"
        by (simp only:)
      with rel full True show ?thesis
        by (simp add: path_join_def)
    next
      case False
      with rel full have "path_join a b = a @ CHR ''/'' # b"
        by (simp add: path_join_def)
      then show ?thesis
        using basename_tail [OF assms] by simp
    qed
  qed
qed

text \<open>The normal form of a relative member name that passes the guard has no \<open>..\<close>.\<close>

lemma member_normal_clean:
  assumes "\<not> prefix ''/'' m" "\<not> prefix ''..'' (normpath m)"
  shows "list_all clean_comp (foldl (norm_step False) [] (split_sep m))"
proof -
  let ?N = "foldl (norm_step False) [] (split_sep m)"
  have no_up: "''..'' \<notin> set ?N"
  proof
    assume up: "''..'' \<in> set ?N"
    have "''..'' \<in> set ?N \<longrightarrow> hd ?N = ''..''"
      by (rule updots_at_head) simp
    with up have "hd ?N = ''..''" "?N \<noteq> []"
      by auto
    then have "?N = ''..'' # tl ?N"
      by (metis list.collapse)
    then have "join_sep ?N = ''..'' @ concat (map (\<lambda>c. CHR ''/'' # c) (tl ?N))"
      using join_sep_concat [of "''..''" "tl ?N"] by simp
    then have pre: "prefix ''..'' (join_sep ?N)"
      by simp
    then have ne: "join_sep ?N \<noteq> []"
      by auto
    have m: "m \<noteq> []"
    proof
      assume "m = []"
      with up show False by (simp add: norm_step_skip)
    qed
    from assms(1) have "initial_slashes m = 0"
      by (simp add: initial_slashes_def)
    with m ne have "normpath m = join_sep ?N"
      by (simp add: normpath_def Let_def)
    with pre assms(2) show False by simp
  qed
  have "clean_comp c" if "c \<in> set ?N" for c
  proof -
    from that have "c \<in> set [] \<or> (c \<in> set (split_sep m) \<and> c \<noteq> [] \<and> c \<noteq> ''.'')"
      by (rule norm_set)
    then have "c \<in> set (split_sep m)" "c \<noteq> []" "c \<noteq> ''.''"
      by auto
    moreover from this(1) have "CHR ''/'' \<notin> set c"
      by (rule split_sep_no_slash)
    moreover from that no_up have "c \<noteq> ''..''"
      by auto
    ultimately show ?thesis
      by (simp add: clean_comp_def)
  qed
  then show ?thesis
    by (simp add: list_all_iff)
qed

lemma rel_name_dir: "N \<noteq> [] \<Longrightarrow> hd N = d \<Longrightarrow> tl N = [] \<Longrightarrow> rel_name d N = ''.''"
  by (simp add: rel_name_def)

lemma rel_name_sub:
  "N \<noteq> [] \<Longrightarrow> hd N = d \<Longrightarrow> tl N \<noteq> [] \<Longrightarrow> rel_name d N = join_sep (tl N)"
  by (simp add: rel_name_def)

lemma rel_name_up: "\<not> (N \<noteq> [] \<and> hd N = d) \<Longrightarrow> rel_name d N = join_sep (''..'' # N)"
  by (auto simp add: rel_name_def)

lemma relpath_member:
  assumes cwd: "list_all clean_comp cwdc"
      and d: "clean_comp d"
      and m: "m \<noteq> []" "\<not> prefix ''/'' m"
      and N: "list_all clean_comp (foldl (norm_step False) [] (split_sep m))"
  shows "relpath (abs_path cwdc) m d
           = Inr (rel_name d (foldl (norm_step False) [] (split_sep m)))"
proof -
  define N where "N = foldl (norm_step False) [] (split_sep m)"
  have clean: "list_all clean_comp N"
    using N by (simp add: N_def)
  have d_rel: "\<not> prefix ''/'' d"
    using d by (rule clean_comp_relative)
  have "filter (\<lambda>x. x \<noteq> []) (split_sep (abspath (abs_path cwdc) d))
          = resolved (path_join (abs_path cwdc) d)"
    using d_rel by (simp add: abspath_def isabs_def resolved_def)
  also have "\<dots> = foldl (norm_step True) cwdc (split_sep d)"
    using cwd d_rel by (rule resolved_path_join)
  also have "\<dots> = cwdc @ [d]"
    using d by (simp add: clean_comp_split norm_step_clean)
  finally have start: "filter (\<lambda>x. x \<noteq> []) (split_sep (abspath (abs_path cwdc) d)) = cwdc @ [d]" .
  have no_up: "''..'' \<notin> set N"
    using clean by (auto simp add: list_all_iff clean_comp_def)
  have "filter (\<lambda>x. x \<noteq> []) (split_sep (abspath (abs_path cwdc) m))
          = resolved (path_join (abs_path cwdc) m)"
    using m(2) by (simp add: abspath_def isabs_def resolved_def)
  also have "\<dots> = foldl (norm_step True) cwdc (split_sep m)"
    using cwd m(2) by (rule resolved_path_join)
  also have "\<dots> = cwdc @ N"
    using norm_below [of "[]" "split_sep m" True cwdc] no_up by (simp add: N_def)
  finally have path: "filter (\<lambda>x. x \<noteq> []) (split_sep (abspath (abs_path cwdc) m)) = cwdc @ N" .
  have common: "commonprefix (cwdc @ [d]) (cwdc @ N) = cwdc @ commonprefix [d] N"
    by (rule commonprefix_append)
  have unfolded: "relpath (abs_path cwdc) m d =
      (let i = length (cwdc @ commonprefix [d] N);
           rel_list = replicate (length (cwdc @ [d]) - i) ''..'' @ drop i (cwdc @ N)
       in if rel_list = [] then Inr ''.''
          else Inr (foldl path_join (hd rel_list) (tl rel_list)))"
    using m(1) unfolding relpath_def Let_def start path common by simp
  have "relpath (abs_path cwdc) m d = Inr (rel_name d N)"
  proof (cases "N \<noteq> [] \<and> hd N = d")
    case True
    then have split: "N = d # tl N"
      by (metis list.collapse)
    then have "commonprefix [d] N = [d]"
      by (metis commonprefix.simps(1) commonprefix.simps(2))
    then have eq: "relpath (abs_path cwdc) m d =
        (if tl N = [] then Inr ''.'' else Inr (foldl path_join (hd (tl N)) (tl (tl N))))"
      unfolding unfolded Let_def by (simp add: drop_Suc)
    show ?thesis
    proof (cases "tl N = []")
      case True
      with eq \<open>N \<noteq> [] \<and> hd N = d\<close> show ?thesis
        by (simp add: rel_name_dir)
    next
      case False
      from clean have tl_clean: "list_all clean_comp (tl N)"
        by (cases N) simp_all
      with False have h: "clean_comp (hd (tl N))" and t: "list_all clean_comp (tl (tl N))"
        by (cases "tl N"; simp)+
      from h have "hd (tl N) \<noteq> [] \<and> last (hd (tl N)) \<noteq> CHR ''/''"
        by (rule clean_comp_last)
      with t have "foldl path_join (hd (tl N)) (tl (tl N))
          = hd (tl N) @ concat (map (\<lambda>c. CHR ''/'' # c) (tl (tl N)))"
        by (simp add: foldl_path_join)
      also have "\<dots> = join_sep (hd (tl N) # tl (tl N))"
        by (simp add: join_sep_concat)
      also have "\<dots> = join_sep (tl N)"
        using False by simp
      finally show ?thesis
        using eq False \<open>N \<noteq> [] \<and> hd N = d\<close> by (simp add: rel_name_sub)
    qed
  next
    case False
    then have "commonprefix [d] N = []"
      by (cases N) auto
    then have "relpath (abs_path cwdc) m d = Inr (foldl path_join ''..'' N)"
      unfolding unfolded Let_def by simp
    also have "foldl path_join ''..'' N = ''..'' @ concat (map (\<lambda>c. CHR ''/'' # c) N)"
      using clean by (simp add: foldl_path_join)
    also have "\<dots> = join_sep (''..'' # N)"
      by (simp add: join_sep_concat)
    finally show ?thesis
      by (simp add: rel_name_up [OF False])
  qed
  then show ?thesis
    by (simp add: N_def)
qed

lemma rel_name_inside:
  assumes ud: "list_all clean_comp udc"
      and d: "clean_comp d"
      and N: "list_all clean_comp N"
  shows "inside (abs_path udc) (path_join (path_join (abs_path udc) d) (rel_name d N))"
proof -
  have dir: "path_join (abs_path udc) d = abs_path (udc @ [d])"
    using ud d by (rule path_join_comp)
  have sub: "list_all clean_comp (udc @ [d])"
    using ud d by simp
  have base: "resolved (abs_path udc) = udc"
    using ud by (rule resolved_abs_path)
  have goal: "inside (abs_path udc) (path_join (abs_path (udc @ [d])) r)"
    if rel: "\<not> prefix ''/'' r"
      and pre: "prefix udc (foldl (norm_step True) (udc @ [d]) (split_sep r))" for r
  proof -
    have "resolved (path_join (abs_path (udc @ [d])) r)
        = foldl (norm_step True) (udc @ [d]) (split_sep r)"
      using sub rel by (rule resolved_path_join)
    moreover have "isabs (path_join (abs_path (udc @ [d])) r)"
      using sub rel by (rule isabs_path_join)
    ultimately show ?thesis
      using pre by (simp add: inside_def base)
  qed
  have "inside (abs_path udc) (path_join (abs_path (udc @ [d])) (rel_name d N))"
  proof (cases "N \<noteq> [] \<and> hd N = d")
    case True
    note head = this
    show ?thesis
    proof (cases "tl N = []")
      case True
      have "inside (abs_path udc) (path_join (abs_path (udc @ [d])) ''.'')"
        by (rule goal) (simp_all add: norm_step_skip)
      with True head show ?thesis
        by (simp add: rel_name_dir)
    next
      case False
      from N have tl_clean: "list_all clean_comp (tl N)"
        by (cases N) simp_all
      have split: "split_sep (join_sep (tl N)) = tl N"
        using False tl_clean by (simp add: split_sep_join clean_no_slash)
      have "join_sep (tl N) \<noteq> [] \<and> hd (join_sep (tl N)) \<noteq> CHR ''/''"
        using tl_clean False by (rule clean_join_hd)
      then have rel: "\<not> prefix ''/'' (join_sep (tl N))"
        by (cases "join_sep (tl N)") auto
      have "inside (abs_path udc) (path_join (abs_path (udc @ [d])) (join_sep (tl N)))"
        using rel by (rule goal) (simp add: split norm_clean_append [OF tl_clean])
      with False head show ?thesis
        by (simp add: rel_name_sub)
    qed
  next
    case False
    have joined: "join_sep (''..'' # N) = ''..'' @ concat (map (\<lambda>c. CHR ''/'' # c) N)"
      by (rule join_sep_concat)
    then have rel: "\<not> prefix ''/'' (join_sep (''..'' # N))"
      by simp
    have "\<forall>c\<in>set (''..'' # N). CHR ''/'' \<notin> set c"
      using N by (simp add: list_all_iff clean_comp_def)
    then have split: "split_sep (join_sep (''..'' # N)) = ''..'' # N"
      by (intro split_sep_join) simp_all
    have "last (udc @ [d]) \<noteq> ''..''"
      using d by (simp add: clean_comp_def)
    then have "norm_step True (udc @ [d]) ''..'' = butlast (udc @ [d])"
      by (intro norm_step_pop) simp_all
    then have pop: "norm_step True (udc @ [d]) ''..'' = udc"
      by simp
    have "inside (abs_path udc) (path_join (abs_path (udc @ [d])) (join_sep (''..'' # N)))"
      using rel by (rule goal) (simp add: split pop norm_clean_append [OF N])
    then show ?thesis
      by (simp add: rel_name_up [OF False])
  qed
  then show ?thesis
    by (simp add: dir)
qed

lemma subtree_member_inside:
  assumes ud: "list_all clean_comp udc"
      and cwd: "list_all clean_comp cwdc"
      and d: "clean_comp d"
      and m: "m \<noteq> []" "\<not> prefix ''/'' m" "\<not> prefix ''..'' (normpath m)"
  shows "\<exists>rel. relpath (abs_path cwdc) m d = Inr rel
           \<and> inside (abs_path udc) (path_join (path_join (abs_path udc) d) rel)"
proof -
  have N: "list_all clean_comp (foldl (norm_step False) [] (split_sep m))"
    using m(2,3) by (rule member_normal_clean)
  have "relpath (abs_path cwdc) m d
      = Inr (rel_name d (foldl (norm_step False) [] (split_sep m)))"
    using cwd d m(1,2) N by (rule relpath_member)
  moreover have "inside (abs_path udc)
      (path_join (path_join (abs_path udc) d)
         (rel_name d (foldl (norm_step False) [] (split_sep m))))"
    using ud d N by (rule rel_name_inside)
  ultimately show ?thesis
    by simp
qed

lemma db_member_inside:
  assumes "list_all clean_comp udc"
  shows "inside (abs_path udc) (path_join (abs_path udc) ''goldshop.db'')"
proof -
  have c: "clean_comp ''goldshop.db''"
    by (simp add: clean_comp_def)
  then have eq: "path_join (abs_path udc) ''goldshop.db'' = abs_path (udc @ [''goldshop.db''])"
    by (rule path_join_comp [OF assms])
  have "list_all clean_comp (udc @ [''goldshop.db''])"
    using assms c by simp
  then have "resolved (abs_path (udc @ [''goldshop.db''])) = udc @ [''goldshop.db'']"
    by (rule resolved_abs_path)
  moreover have "resolved (abs_path udc) = udc"
    using assms by (rule resolved_abs_path)
  moreover have "isabs (abs_path (udc @ [''goldshop.db'']))"
    by (simp add: isabs_def abs_path_def)
  ultimately show ?thesis
    unfolding inside_def eq by simp
qed

lemma restore_member_inside:
  assumes ud: "list_all clean_comp udc" and cwd: "list_all clean_comp cwdc"
  shows "\<exists>ws. restore_member Posix (abs_path udc) (abs_path cwdc) m = Inr ws
           \<and> (\<forall>w\<in>set ws. inside (abs_path udc) w)
           \<and> (prefix ''..'' (normpath m) \<longrightarrow> ws = [])
           \<and> (ws \<noteq> [] \<longrightarrow> m = ''goldshop.db'' \<or> prefix ''images/'' m \<or> prefix ''thumbs/'' m)"
proof -
  have name: "basename (path_join (abs_path udc) ''goldshop.db'') = ''goldshop.db''"
    by (rule basename_path_join) simp
  have db: "inside (abs_path udc) (path_join (abs_path udc) ''goldshop.db'')"
    using ud by (rule db_member_inside)
  consider (skip) "prefix ''..'' (normpath m)"
    | (db) "\<not> prefix ''..'' (normpath m)" "m = ''goldshop.db''"
    | (images) "\<not> prefix ''..'' (normpath m)" "m \<noteq> ''goldshop.db''" "prefix ''images/'' m"
    | (thumbs) "\<not> prefix ''..'' (normpath m)" "m \<noteq> ''goldshop.db''" "\<not> prefix ''images/'' m"
        "prefix ''thumbs/'' m"
    | (other) "\<not> prefix ''..'' (normpath m)" "m \<noteq> ''goldshop.db''" "\<not> prefix ''images/'' m"
        "\<not> prefix ''thumbs/'' m"
    by blast
  then show ?thesis
  proof cases
    case skip
    then show ?thesis
      by (simp add: restore_member_def Let_def)
  next
    case db
    then have "restore_member Posix (abs_path udc) (abs_path cwdc) m
        = Inr [path_join (abs_path udc) ''goldshop.db'', path_join (abs_path udc) ''goldshop.db'']"
      by (simp add: restore_member_def Let_def name)
    with \<open>inside (abs_path udc) (path_join (abs_path udc) ''goldshop.db'')\<close> db show ?thesis
      by simp
  next
    case images
    from images(3) have m: "m \<noteq> []" "\<not> prefix ''/'' m"
      by (auto simp add: prefix_def)
    have "clean_comp ''images''"
      by (simp add: clean_comp_def)
    with ud cwd obtain rel where rel: "relpath (abs_path cwdc) m ''images'' = Inr rel"
        "inside (abs_path udc) (path_join (path_join (abs_path udc) ''images'') rel)"
      using subtree_member_inside [OF _ _ _ m images(1)] by blast
    from images have "restore_member Posix (abs_path udc) (abs_path cwdc) m
        = Inr [path_join (path_join (abs_path udc) ''images'') rel]"
      by (simp add: restore_member_def Let_def name rel(1))
    with rel(2) images show ?thesis
      by simp
  next
    case thumbs
    from thumbs(4) have m: "m \<noteq> []" "\<not> prefix ''/'' m"
      by (auto simp add: prefix_def)
    have "clean_comp ''thumbs''"
      by (simp add: clean_comp_def)
    with ud cwd obtain rel where rel: "relpath (abs_path cwdc) m ''thumbs'' = Inr rel"
        "inside (abs_path udc) (path_join (path_join (abs_path udc) ''thumbs'') rel)"
      using subtree_member_inside [OF _ _ _ m thumbs(1)] by blast
    from thumbs have "restore_member Posix (abs_path udc) (abs_path cwdc) m
        = Inr [path_join (path_join (abs_path udc) ''thumbs'') rel]"
      by (simp add: restore_member_def Let_def name rel(1))
    with rel(2) thumbs show ?thesis
      by simp
  next
    case other
    then show ?thesis
      by (simp add: restore_member_def Let_def name)
  qed
qed

lemma restore_members_inside:
  assumes "list_all clean_comp udc" "list_all clean_comp cwdc"
  shows "\<forall>w\<in>set (restore_members Posix (abs_path udc) (abs_path cwdc) ms). inside (abs_path udc) w"
proof (induction ms)
  case Nil
  show ?case by simp
next
  case (Cons m ms)
  obtain ws where "restore_member Posix (abs_path udc) (abs_path cwdc) m = Inr ws"
      "\<forall>w\<in>set ws. inside (abs_path udc) w"
    using restore_member_inside [OF assms] by blast
  with Cons show ?case
    by auto
qed

section \<open>Restoring a backup\<close>

text \<open>
  With the path names of POSIX the guard of \<open>_on_restore_selected\<close> is sound: a member
  whose normalised name starts with \<open>..\<close> is skipped, only the database file and names
  starting with \<open>images/\<close> or \<open>thumbs/\<close> are written, no path function raises, and every
  path opened for writing lies inside the user data directory.  The user data directory
  and the current directory are absolute paths in normal form, \<open>abs_path udc\<close> and
  \<open>abs_path cwdc\<close>; a path is inside a directory when its normal form continues the one
  of the directory, so links of the file system are not followed.
\<close>

theorem restore_posix_inside_user_data_dir:
  assumes "list_all clean_comp udc" "list_all clean_comp cwdc"
  shows "(\<forall>w\<in>set (restore_members Posix (abs_path udc) (abs_path cwdc) ms).
            inside (abs_path udc) w)
       \<and> (\<exists>ws. restore_member Posix (abs_path udc) (abs_path cwdc) m = Inr ws
             \<and> (\<forall>w\<in>set ws. inside (abs_path udc) w)
             \<and> (prefix ''..'' (normpath m) \<longrightarrow> ws = [])
             \<and> (ws \<noteq> [] \<longrightarrow>
                  m = ''goldshop.db'' \<or> prefix ''images/'' m \<or> prefix ''thumbs/'' m))"
proof
  show "\<forall>w\<in>set (restore_members Posix (abs_path udc) (abs_path cwdc) ms).
          inside (abs_path udc) w"
    using assms by (rule restore_members_inside)
  show "\<exists>ws. restore_member Posix (abs_path udc) (abs_path cwdc) m = Inr ws
          \<and> (\<forall>w\<in>set ws. inside (abs_path udc) w)
          \<and> (prefix ''..'' (normpath m) \<longrightarrow> ws = [])
          \<and> (ws \<noteq> [] \<longrightarrow>
               m = ''goldshop.db'' \<or> prefix ''images/'' m \<or> prefix ''thumbs/'' m)"
    using assms by (rule restore_member_inside)
qed

text \<open>An archive with a member that tries to leave, one that stays and one that is
  ignored.\<close>

lemma restore_posix_example:
  "list_all clean_comp [''data'', ''app''] \<and> list_all clean_comp [''home'', ''u'']
   \<and> abs_path [''data'', ''app''] = ''/data/app'' \<and> abs_path [''home'', ''u''] = ''/home/u''
   \<and> restore_members Posix ''/data/app'' ''/home/u''
         [''images/../../y'', ''images/b/../../c'', ''/etc/passwd'']
       = [''/data/app/images/../c'']
   \<and> list_all (inside ''/data/app'')
         (restore_members Posix ''/data/app'' ''/home/u''
            [''images/../../y'', ''images/b/../../c'', ''/etc/passwd''])
   \<and> inside ''/data/app'' ''/data/app/images/../c''
   \<and> prefix ''..'' (normpath ''images/../../y'')
   \<and> restore_member Posix ''/data/app'' ''/home/u'' ''images/../../y'' = Inr []
   \<and> \<not> inside ''/data/app'' ''/data/app/images/../../y''"
proof -
  have ud: "list_all clean_comp [''data'', ''app'']"
    by (simp add: clean_comp_def)
  have cwd: "list_all clean_comp [''home'', ''u'']"
    by (simp add: clean_comp_def)
  have a1: "abs_path [''data'', ''app''] = ''/data/app''"
    by (simp add: abs_path_def)
  have a2: "abs_path [''home'', ''u''] = ''/home/u''"
    by (simp add: abs_path_def)
  note inst = restore_posix_inside_user_data_dir [OF ud cwd, of
      "[''images/../../y'', ''images/b/../../c'', ''/etc/passwd'']" "''images/../../y''"]
  have all: "\<forall>w\<in>set (restore_members Posix ''/data/app'' ''/home/u''
        [''images/../../y'', ''images/b/../../c'', ''/etc/passwd'']). inside ''/data/app'' w"
    using inst unfolding a1 a2 by (rule conjunct1)
  have up: "prefix ''..'' (normpath ''images/../../y'')"
    by (simp add: normpath_def initial_slashes_def norm_step_def)
  obtain ws where ws: "restore_member Posix ''/data/app'' ''/home/u'' ''images/../../y'' = Inr ws"
      "prefix ''..'' (normpath ''images/../../y'') \<longrightarrow> ws = []"
    using inst unfolding a1 a2 by blast
  from ws up have skipped: "restore_member Posix ''/data/app'' ''/home/u'' ''images/../../y'' = Inr []"
    by simp
  have name: "basename (path_join ''/data/app'' ''goldshop.db'') = ''goldshop.db''"
    by (rule basename_path_join) simp
  have normal: "normpath ''images/b/../../c'' = ''c''"
    by (simp add: normpath_def initial_slashes_def norm_step_def)
  have comps: "foldl (norm_step False) [] (split_sep ''images/b/../../c'') = [''c'']"
    by (simp add: norm_step_def)
  have "relpath (abs_path [''home'', ''u'']) ''images/b/../../c'' ''images''
      = Inr (rel_name ''images'' (foldl (norm_step False) [] (split_sep ''images/b/../../c'')))"
    using cwd by (rule relpath_member) (simp_all add: clean_comp_def norm_step_def)
  then have rel: "relpath ''/home/u'' ''images/b/../../c'' ''images'' = Inr ''../c''"
    unfolding comps a2 by (simp add: rel_name_def)
  have dir: "path_join ''/data/app'' ''images'' = ''/data/app/images''"
    by (simp add: path_join_def)
  have dest: "path_join ''/data/app/images'' ''../c'' = ''/data/app/images/../c''"
    by (simp add: path_join_def)
  have kept: "restore_member Posix ''/data/app'' ''/home/u'' ''images/b/../../c''
      = Inr [''/data/app/images/../c'']"
    by (simp add: restore_member_def Let_def name normal rel dir dest)
  have other: "restore_member Posix ''/data/app'' ''/home/u'' ''/etc/passwd'' = Inr []"
    by (simp add: restore_member_def Let_def name normpath_def initial_slashes_def norm_step_def)
  have writes: "restore_members Posix ''/data/app'' ''/home/u''
        [''images/../../y'', ''images/b/../../c'', ''/etc/passwd'']
      = [''/data/app/images/../c'']"
    by (simp add: skipped kept other)
  from all have ok: "inside ''/data/app'' ''/data/app/images/../c''"
    unfolding writes by simp
  have base: "resolved ''/data/app'' = [''data'', ''app'']"
    using resolved_abs_path [OF ud] unfolding a1 .
  have "resolved (path_join (abs_path [''data'', ''app'']) ''images/../../y'')
      = foldl (norm_step True) [''data'', ''app''] (split_sep ''images/../../y'')"
    using ud by (rule resolved_path_join) simp
  moreover have "path_join ''/data/app'' ''images/../../y'' = ''/data/app/images/../../y''"
    by (simp add: path_join_def)
  ultimately have "resolved ''/data/app/images/../../y'' = [''data'', ''y'']"
    unfolding a1 by (simp add: norm_step_def)
  then have out: "\<not> inside ''/data/app'' ''/data/app/images/../../y''"
    by (simp add: inside_def base)
  from all have listed: "list_all (inside ''/data/app'')
      (restore_members Posix ''/data/app'' ''/home/u''
         [''images/../../y'', ''images/b/../../c'', ''/etc/passwd''])"
    by (simp only: list_all_iff)
  show ?thesis
    using ud cwd a1 a2 writes listed ok up skipped out by (intro conjI)
qed

text \<open>
  Claim C6.  Restoring from a backup archive is claimed to write no file outside the user
  data directory, whatever the member names are.  With the path names of Windows this
  fails.  The application runs in \<open>C:/app\<close>, so that its user data directory is
  \<open>C:/app/gold_app_data\<close>, and the archive has a member named \<open>thumbs/D:/y\<close>.  The normal
  form of the name does not start with \<open>..\<close>, so the member is not skipped; its name
  relative to \<open>thumbs\<close> is \<open>D:y\<close>, which carries a drive; and joining it to the thumbs
  directory gives a path on drive \<open>D:\<close>, which is the one path the member is written to.
  This holds whatever the case mappings of the platform are: were the two drive letters
  the same up to case, the path would be on drive \<open>D:\<close> all the same.
\<close>

theorem restore_escapes_user_data_dir_on_windows:
  "os_normpath (Nt lower normcase) ''thumbs/D:/y'' = backslashes ''thumbs/D:/y''
   \<and> os_relpath (Nt lower normcase) (backslashes ''C:/app'') ''thumbs/D:/y'' ''thumbs''
       = Inr ''D:y''
   \<and> restore_member (Nt lower normcase) (backslashes ''C:/app/gold_app_data'')
         (backslashes ''C:/app'') ''thumbs/D:/y''
       = Inr [if lower ''D:'' = lower ''C:''
              then backslashes ''D:/app/gold_app_data/thumbs/y'' else ''D:y'']
   \<and> fst (nt_splitdrive ''D:y'') = ''D:''
   \<and> fst (nt_splitdrive (backslashes ''D:/app/gold_app_data/thumbs/y'')) = ''D:''
   \<and> fst (nt_splitdrive (backslashes ''C:/app/gold_app_data'')) = ''C:''"
proof -
  have normal: "nt_normpath ''thumbs/D:/y'' = backslashes ''thumbs/D:/y''"
    by (simp add: nt_eval)
  have guard: "\<not> prefix ''..'' (backslashes ''thumbs/D:/y'')"
    by (simp add: nt_eval)
  have db: "nt_join lower (backslashes ''C:/app/gold_app_data'') ''goldshop.db''
      = backslashes ''C:/app/gold_app_data/goldshop.db''"
    by (simp add: nt_eval)
  have name: "nt_basename (backslashes ''C:/app/gold_app_data/goldshop.db'') = ''goldshop.db''"
    by (simp add: nt_eval)
  have thumbs: "nt_join lower (backslashes ''C:/app/gold_app_data'') ''thumbs''
      = backslashes ''C:/app/gold_app_data/thumbs''"
    by (simp add: nt_eval)
  have rel: "nt_relpath lower normcase (backslashes ''C:/app'') ''thumbs/D:/y'' ''thumbs''
      = Inr ''D:y''"
    by (simp add: nt_eval)
  have dest: "nt_join lower (backslashes ''C:/app/gold_app_data/thumbs'') ''D:y''
      = (if lower ''D:'' = lower ''C:'' then backslashes ''D:/app/gold_app_data/thumbs/y''
         else ''D:y'')"
    by (simp add: nt_eval)
  have member: "restore_member (Nt lower normcase) (backslashes ''C:/app/gold_app_data'')
        (backslashes ''C:/app'') ''thumbs/D:/y''
      = Inr [if lower ''D:'' = lower ''C:''
             then backslashes ''D:/app/gold_app_data/thumbs/y'' else ''D:y'']"
    unfolding restore_member_def Let_def os_normpath.simps os_join.simps os_basename.simps
      os_relpath.simps normal db name thumbs rel
    using guard by (simp add: dest)
  have drives: "fst (nt_splitdrive ''D:y'') = ''D:''"
    "fst (nt_splitdrive (backslashes ''D:/app/gold_app_data/thumbs/y'')) = ''D:''"
    "fst (nt_splitdrive (backslashes ''C:/app/gold_app_data'')) = ''C:''"
    by (simp_all add: nt_eval)
  show ?thesis
    using normal rel member drives by simp
qed

theorem restore_escapes_user_data_dir_on_windows_witness:
  "restore_member (Nt (map ascii_lower) (\<lambda>s. map ascii_lower (backslashes s)))
       (backslashes ''C:/app/gold_app_data'') (backslashes ''C:/app'') ''thumbs/D:/y''
     = Inr [''D:y'']
   \<and> fst (nt_splitdrive ''D:y'') = ''D:''
   \<and> fst (nt_splitdrive (backslashes ''C:/app/gold_app_data'')) = ''C:''"
proof -
  have differ: "map ascii_lower ''D:'' \<noteq> map ascii_lower ''C:''"
    by (simp add: ascii_lower_def byte_def)
  show ?thesis
    using differ
      restore_escapes_user_data_dir_on_windows
        [of "map ascii_lower" "\<lambda>s. map ascii_lower (backslashes s)"]
    by simp
qed

end
